theory Spec2Isabelle
  imports Complex_Main "HOL-Library.AList" "HOL-Library.Multiset"
begin

section \<open>The corun scheduler (src/corun.py)\<close>

text \<open>
  The module is a cooperative scheduler for Python 2 generators. A \<open>Task\<close> wraps a
  generator; \<open>Scheduler.run\<close> takes a task from the ready queue, resumes it with
  \<open>send\<close>, and either puts it back, hands it to the handler of the \<open>SystemCall\<close> it
  yielded, or, on \<open>StopIteration\<close>, retires it and wakes the tasks waiting for its exit.

  Task objects are shared by reference between the scheduler's containers
  (\<open>taskmap\<close>, the ready queue, \<open>io_waiting\<close>, \<open>time_waiting\<close>, \<open>exit_waiting\<close>) and are
  mutated through any of them (\<open>task.sendval = ...\<close>, \<open>dtask.target.close()\<close>), so the
  model keeps them in an explicit store: a reference is an address of the store, and
  the containers hold references.

  What the module takes from outside is an input of the model:
  \<^item> the value of \<open>Task.__hash__()\<close>, which becomes the task id, is an argument of \<open>new\<close>;
  \<^item> the value of \<open>time.time()\<close> and the list returned by \<open>epoll.poll\<close> are given for
    each iteration of the loop (\<open>env\<close>);
  \<^item> a user generator is a value of the codatatype \<open>gen\<close>: what \<open>send\<close> does with the
    value sent in, and what the generator does when \<open>close\<close> raises \<open>GeneratorExit\<close> in it.
  Times are rationals: the rounding of binary floating point is not modelled.
\<close>

subsection \<open>Data\<close>

type_synonym tid = int
type_synonym fd = int
type_synonym ref = nat
type_synonym event = nat

text \<open>The values the scheduler stores in \<open>task.sendval\<close>: \<open>None\<close>, \<open>True\<close>, \<open>False\<close>.\<close>

datatype sendval = PyNone | PyBool bool

text \<open>
  The classes derived from \<open>SystemCall\<close>, and the base class itself (whose \<open>handle\<close> is
  \<open>pass\<close>). \<open>ReadTask\<close> and \<open>WriteTask\<close> carry the result of \<open>fileobj.fileno()\<close>.
\<close>

datatype syscall =
    SystemCall
  | KillTask tid
  | WaitForTask tid
  | WaitForTime rat
  | ReadTask fd
  | WriteTask fd

text \<open>
  What \<open>generator.send\<close> can do: yield something that is not a \<open>SystemCall\<close>, yield a
  \<open>SystemCall\<close>, raise \<open>StopIteration\<close> (the generator returned), or raise anything else.
\<close>

datatype 'g outcome =
    YieldValue 'g
  | YieldCall syscall 'g
  | StopIteration
  | Raise

text \<open>
  What a suspended generator can do when \<open>generator.close()\<close> raises \<open>GeneratorExit\<close> at its
  \<open>yield\<close>: let the exception through or return (\<open>close\<close> then returns), catch it and
  yield again (\<open>close\<close> then raises \<open>RuntimeError\<close>, and the generator is suspended at the
  new \<open>yield\<close>), or raise another exception (which \<open>close\<close> passes on).
\<close>

datatype 'g closing =
    Exits
  | Yields 'g
  | Raises

codatatype gen = Gen (send: "sendval \<Rightarrow> gen outcome") (on_exit: "gen closing")

text \<open>
  A generator that has not been resumed yet: \<open>close\<close> runs none of its code, so no \<open>try\<close>
  of its body can catch \<open>GeneratorExit\<close>.
\<close>

definition unstarted :: "gen \<Rightarrow> gen" where
  "unstarted g = Gen (send g) Exits"

text \<open>
  The generator a task holds: one of the three generators the scheduler defines itself
  (they read and write the scheduler, so their bodies are part of the model), a user
  generator, or a generator that has finished or was closed.
\<close>

datatype target =
    IoEpollTask
  | TimePollTask
  | WaitForTasks "tid list" event
  | UserGen gen
  | Closed

record task =
  tid :: tid
  target :: target
  sendval :: sendval

datatype mask = EPOLLIN | EPOLLOUT

datatype error = ZeroDivisionError | KeyError | IOError | RuntimeError | TaskFailure

text \<open>
  The scheduler object. A dict is an association list in insertion order (Python 2 does
  not specify the order in which \<open>keys()\<close> lists a dict; no theorem below depends on it).
  \<open>epoll\<close> is the registration table of the \<open>select.epoll\<close> object and \<open>polls\<close> the
  timeouts \<open>epoll.poll\<close> has been called with; \<open>events\<close> lists the \<open>threading.Event\<close>
  objects that have been set; \<open>heap\<close> is the store of Task objects and \<open>next_ref\<close> the
  next free address.
\<close>

record sched =
  ready :: "ref list"
  taskmap :: "(tid \<times> ref) list"
  exit_waiting :: "(tid \<times> ref list) list"
  io_waiting :: "(fd \<times> ref) list"
  time_waiting :: "(rat \<times> ref list) list"
  epoll :: "(fd \<times> mask) list"
  polls :: "int list"
  running :: bool
  events :: "event list"
  heap :: "ref \<Rightarrow> task"
  next_ref :: ref

text \<open>The inputs of one iteration of the loop.\<close>

record env =
  time_time :: rat
  poll_events :: "fd list"

type_synonym 'a result = "(error \<times> sched) + 'a"

subsection \<open>Scheduler methods\<close>

text \<open>\<open>Scheduler.__init__\<close>, without the thread start.\<close>

definition scheduler :: sched where
  "scheduler =
     \<lparr>ready = [], taskmap = [], exit_waiting = [], io_waiting = [], time_waiting = [],
      epoll = [], polls = [], running = True, events = [],
      heap = (\<lambda>_. \<lparr>tid = 0, target = Closed, sendval = PyNone\<rparr>), next_ref = 0\<rparr>"

text \<open>\<open>self.ready.put(task)\<close>\<close>

definition put :: "ref \<Rightarrow> sched \<Rightarrow> sched" where
  "put r s = s\<lparr>ready := ready s @ [r]\<rparr>"

definition set_sendval :: "ref \<Rightarrow> sendval \<Rightarrow> sched \<Rightarrow> sched" where
  "set_sendval r v s = s\<lparr>heap := (heap s)(r := (heap s r)\<lparr>sendval := v\<rparr>)\<rparr>"

definition set_target :: "ref \<Rightarrow> target \<Rightarrow> sched \<Rightarrow> sched" where
  "set_target r g s = s\<lparr>heap := (heap s)(r := (heap s r)\<lparr>target := g\<rparr>)\<rparr>"

text \<open>
  \<open>Scheduler.new\<close>: \<open>h\<close> is what \<open>self.__hash__()\<close> returns for the new Task object; the
  method returns \<open>h\<close>.
\<close>

definition new :: "target \<Rightarrow> tid \<Rightarrow> sched \<Rightarrow> sched" where
  "new g h s =
     (let r = next_ref s in
      s\<lparr>heap := (heap s)(r := \<lparr>tid = h, target = g, sendval = PyNone\<rparr>),
        next_ref := Suc r,
        taskmap := AList.update h r (taskmap s),
        ready := ready s @ [r]\<rparr>)"

definition wait_for_time :: "ref \<Rightarrow> rat \<Rightarrow> sched \<Rightarrow> sched" where
  "wait_for_time r exptime s =
     (let tw = (if exptime \<notin> set (map fst (time_waiting s))
                then AList.update exptime [] (time_waiting s) else time_waiting s)
      in s\<lparr>time_waiting := AList.map_entry exptime (\<lambda>l. l @ [r]) tw\<rparr>)"

text \<open>
  \<open>epoll.register\<close> raises \<open>IOError\<close> (EEXIST) for a descriptor that is registered already,
  \<open>epoll.unregister\<close> raises \<open>IOError\<close> (ENOENT) for one that is not.
\<close>

definition epoll_register :: "fd \<Rightarrow> mask \<Rightarrow> sched \<Rightarrow> sched result" where
  "epoll_register f m s =
     (if f \<in> set (map fst (epoll s)) then Inl (IOError, s)
      else Inr (s\<lparr>epoll := epoll s @ [(f, m)]\<rparr>))"

definition epoll_unregister :: "fd \<Rightarrow> sched \<Rightarrow> sched result" where
  "epoll_unregister f s =
     (if f \<in> set (map fst (epoll s)) then Inr (s\<lparr>epoll := AList.delete f (epoll s)\<rparr>)
      else Inl (IOError, s))"

definition wait_for_read :: "ref \<Rightarrow> fd \<Rightarrow> sched \<Rightarrow> sched result" where
  "wait_for_read r fdesc s =
     epoll_register fdesc EPOLLIN (s\<lparr>io_waiting := AList.update fdesc r (io_waiting s)\<rparr>)"

definition wait_for_write :: "ref \<Rightarrow> fd \<Rightarrow> sched \<Rightarrow> sched result" where
  "wait_for_write r fdesc s =
     epoll_register fdesc EPOLLOUT (s\<lparr>io_waiting := AList.update fdesc r (io_waiting s)\<rparr>)"

text \<open>\<open>self.taskmap.pop(task.tid)\<close> raises \<open>KeyError\<close> when the key is missing.\<close>

definition wait_for_exit :: "ref \<Rightarrow> tid \<Rightarrow> sched \<Rightarrow> (bool \<times> sched) result" where
  "wait_for_exit r waitid s =
     (if waitid \<in> set (map fst (taskmap s)) then
        (if tid (heap s r) \<notin> set (map fst (taskmap s)) then Inl (KeyError, s)
         else
           (let s1 = s\<lparr>taskmap := AList.delete (tid (heap s r)) (taskmap s)\<rparr> in
            Inr (True,
              s1\<lparr>exit_waiting :=
                   (if waitid \<in> set (map fst (exit_waiting s1))
                    then AList.map_entry waitid (\<lambda>l. l @ [r]) (exit_waiting s1)
                    else AList.update waitid [r] (exit_waiting s1))\<rparr>)))
      else Inr (False, s))"

text \<open>
  The loop of \<open>__epoll\<close> over the descriptors \<open>epoll.poll\<close> returned:
  \<open>self.ready.put(self.io_waiting.pop(fdesc)); self.epoll.unregister(fdesc)\<close>.
\<close>

fun epoll_loop :: "fd list \<Rightarrow> sched \<Rightarrow> sched result" where
  "epoll_loop [] s = Inr s"
| "epoll_loop (fdesc # fds) s =
     (case map_of (io_waiting s) fdesc of
        None \<Rightarrow> Inl (KeyError, s)
      | Some r \<Rightarrow>
          (case epoll_unregister fdesc
                  (put r (s\<lparr>io_waiting := AList.delete fdesc (io_waiting s)\<rparr>)) of
             Inl e \<Rightarrow> Inl e
           | Inr s1 \<Rightarrow> epoll_loop fds s1))"

text \<open>\<open>__epoll(timeout)\<close>; \<open>fdevents\<close> is what \<open>self.epoll.poll(timeout)\<close> returns.\<close>

definition epoll_poll :: "int \<Rightarrow> fd list \<Rightarrow> sched \<Rightarrow> sched result" where
  "epoll_poll timeout fdevents s = epoll_loop fdevents (s\<lparr>polls := polls s @ [timeout]\<rparr>)"

text \<open>
  The truth value of the ready queue in \<open>not(self.ready)\<close>. \<open>self.ready\<close> is a
  \<open>Queue.Queue\<close>; the class defines neither \<open>__nonzero__\<close> nor \<open>__len__\<close>, so Python takes
  every instance for true, whatever the queue holds.
\<close>

definition queue_truth :: "ref list \<Rightarrow> bool" where
  "queue_truth q = True"

text \<open>One pass of the \<open>while True\<close> loop of \<open>__io_epoll_task\<close>, up to its \<open>yield\<close>.\<close>

definition io_epoll_task :: "fd list \<Rightarrow> sched \<Rightarrow> sched result" where
  "io_epoll_task fdevents s =
     (if io_waiting s \<noteq> [] then
        (if \<not> queue_truth (ready s) then epoll_poll (- 1) fdevents s
         else epoll_poll 0 fdevents s)
      else Inr s)"

text \<open>
  The loop of \<open>__time_poll_task\<close> over \<open>self.time_waiting.keys()\<close> (a copy of the keys made
  before the loop).
\<close>

fun time_poll_loop :: "rat \<Rightarrow> rat list \<Rightarrow> sched \<Rightarrow> sched result" where
  "time_poll_loop current_time [] s = Inr s"
| "time_poll_loop current_time (exptime # ks) s =
     (if exptime \<le> current_time then
        (case map_of (time_waiting s) exptime of
           None \<Rightarrow> Inl (KeyError, s)
         | Some tasks \<Rightarrow>
             time_poll_loop current_time ks
               (s\<lparr>time_waiting := AList.delete exptime (time_waiting s),
                  ready := ready s @ tasks\<rparr>))
      else time_poll_loop current_time ks s)"

text \<open>One pass of the \<open>while True\<close> loop of \<open>__time_poll_task\<close>, up to its \<open>yield\<close>.\<close>

definition time_poll_task :: "rat \<Rightarrow> sched \<Rightarrow> sched result" where
  "time_poll_task current_time s =
     time_poll_loop current_time (map fst (time_waiting s)) s"

text \<open>
  \<open>wait_for_tasks\<close>, resumed with the ids it has not looked at yet: the next id that is in
  \<open>taskmap\<close> and the ids after it, or \<open>None\<close> when the loop runs off the end.
\<close>

fun wait_for_tasks :: "tid list \<Rightarrow> sched \<Rightarrow> (tid \<times> tid list) option" where
  "wait_for_tasks [] s = None"
| "wait_for_tasks (t # ts) s =
     (if t \<in> set (map fst (taskmap s)) then Some (t, ts) else wait_for_tasks ts s)"

text \<open>\<open>joinall\<close> up to \<open>event.wait()\<close>, which returns once \<open>event\<close> is in \<open>events\<close>.\<close>

definition joinall :: "tid list \<Rightarrow> event \<Rightarrow> tid \<Rightarrow> sched \<Rightarrow> sched" where
  "joinall coroutines ev h s = new (WaitForTasks coroutines ev) h s"

subsection \<open>System call handlers\<close>

text \<open>Python's \<open>int\<close> of a float truncates towards zero.\<close>

definition py_int :: "rat \<Rightarrow> int" where
  "py_int x = (if 0 \<le> x then \<lfloor>x\<rfloor> else \<lceil>x\<rceil>)"

text \<open>
  The deadline \<open>WaitForTime.handle\<close> computes; \<open>1.0 / self.seconds\<close> raises
  \<open>ZeroDivisionError\<close> when \<open>seconds\<close> is zero.
\<close>

definition exptime_of :: "rat \<Rightarrow> rat \<Rightarrow> rat option" where
  "exptime_of time_now seconds =
     (if seconds = 0 then None
      else
        (let resolution = 1 / seconds;
             exptime = time_now + seconds
         in Some (of_int (py_int (exptime * resolution)) / resolution)))"

text \<open>
  \<open>task.target.close()\<close>. The generators of the scheduler have no \<open>try\<close> around their
  \<open>yield\<close>, and a finished generator is left as it is: \<open>close\<close> returns, and the next
  \<open>send\<close> raises \<open>StopIteration\<close>. A user generator decides by \<open>on_exit\<close>.
\<close>

definition close :: "ref \<Rightarrow> sched \<Rightarrow> sched result" where
  "close r s =
     (case target (heap s r) of
        UserGen g \<Rightarrow>
          (case on_exit g of
             Exits \<Rightarrow> Inr (set_target r Closed s)
           | Yields g' \<Rightarrow> Inl (RuntimeError, set_target r (UserGen g') s)
           | Raises \<Rightarrow> Inl (TaskFailure, set_target r Closed s))
      | IoEpollTask \<Rightarrow> Inr (set_target r Closed s)
      | TimePollTask \<Rightarrow> Inr (set_target r Closed s)
      | WaitForTasks coroutines ev \<Rightarrow> Inr (set_target r Closed s)
      | Closed \<Rightarrow> Inr s)"

text \<open>\<open>result.handle(self, task)\<close>, by the class of \<open>result\<close>.\<close>

fun handle :: "syscall \<Rightarrow> ref \<Rightarrow> rat \<Rightarrow> sched \<Rightarrow> sched result" where
  "handle SystemCall r time_now s = Inr s"
| "handle (KillTask t) r time_now s =
     (case map_of (taskmap s) t of
        Some dtask \<Rightarrow>
          (case close dtask s of
             Inl e \<Rightarrow> Inl e
           | Inr s1 \<Rightarrow> Inr (put r (set_sendval r (PyBool True) s1)))
      | None \<Rightarrow> Inr (put r (set_sendval r (PyBool False) s)))"
| "handle (WaitForTask t) r time_now s =
     (case wait_for_exit r t s of
        Inl e \<Rightarrow> Inl e
      | Inr (result, s1) \<Rightarrow>
          (let s2 = set_sendval r (PyBool result) s1
           in Inr (if \<not> result then put r s2 else s2)))"
| "handle (WaitForTime seconds) r time_now s =
     (case exptime_of time_now seconds of
        None \<Rightarrow> Inl (ZeroDivisionError, s)
      | Some exptime \<Rightarrow> Inr (wait_for_time r exptime s))"
| "handle (ReadTask fdesc) r time_now s = wait_for_read r fdesc s"
| "handle (WriteTask fdesc) r time_now s = wait_for_write r fdesc s"

subsection \<open>The dispatch loop\<close>

text \<open>
  What \<open>task.run()\<close> gives the loop: a value that is not a \<open>SystemCall\<close>, a \<open>SystemCall\<close>, or
  \<open>StopIteration\<close>. Any other exception is a failure of the whole iteration.
\<close>

datatype produced = Value | Request syscall | Stop

definition run_task :: "ref \<Rightarrow> env \<Rightarrow> sched \<Rightarrow> (produced \<times> sched) result" where
  "run_task r e s =
     (case target (heap s r) of
        IoEpollTask \<Rightarrow>
          (case io_epoll_task (poll_events e) s of
             Inl x \<Rightarrow> Inl x | Inr s1 \<Rightarrow> Inr (Value, s1))
      | TimePollTask \<Rightarrow>
          (case time_poll_task (time_time e) s of
             Inl x \<Rightarrow> Inl x | Inr s1 \<Rightarrow> Inr (Value, s1))
      | WaitForTasks coroutines ev \<Rightarrow>
          (case wait_for_tasks coroutines s of
             Some (t, rest) \<Rightarrow>
               Inr (Request (WaitForTask t), set_target r (WaitForTasks rest ev) s)
           | None \<Rightarrow> Inr (Stop, set_target r Closed (s\<lparr>events := events s @ [ev]\<rparr>)))
      | UserGen g \<Rightarrow>
          (case send g (sendval (heap s r)) of
             YieldValue g' \<Rightarrow> Inr (Value, set_target r (UserGen g') s)
           | YieldCall c g' \<Rightarrow> Inr (Request c, set_target r (UserGen g') s)
           | StopIteration \<Rightarrow> Inr (Stop, set_target r Closed s)
           | Raise \<Rightarrow> Inl (TaskFailure, set_target r Closed s))
      | Closed \<Rightarrow> Inr (Stop, s))"

text \<open>The loop of \<open>for other in others\<close> in the \<open>except StopIteration\<close> branch.\<close>

fun notify :: "ref list \<Rightarrow> sched \<Rightarrow> sched" where
  "notify [] s = s"
| "notify (other # others) s =
     notify others
       (put other (s\<lparr>taskmap := AList.update (tid (heap s other)) other (taskmap s)\<rparr>))"

text \<open>
  The \<open>except StopIteration\<close> branch; \<open>del self.taskmap[task.tid]\<close> raises \<open>KeyError\<close> when
  the key is missing.
\<close>

definition task_exit :: "ref \<Rightarrow> sched \<Rightarrow> sched result" where
  "task_exit r s =
     (let t = tid (heap s r) in
      if t \<notin> set (map fst (taskmap s)) then Inl (KeyError, s)
      else
        (let s1 = s\<lparr>taskmap := AList.delete t (taskmap s)\<rparr> in
         case map_of (exit_waiting s1) t of
           None \<Rightarrow> Inr s1
         | Some others \<Rightarrow>
             Inr (notify others (s1\<lparr>exit_waiting := AList.delete t (exit_waiting s1)\<rparr>))))"

text \<open>
  The body of \<open>while self.running\<close> in \<open>Scheduler.run\<close>. \<open>self.ready.get()\<close> blocks while
  the queue is empty: the iteration then does nothing until something is submitted.
\<close>

definition dispatch :: "env \<Rightarrow> sched \<Rightarrow> sched result" where
  "dispatch e s =
     (case ready s of
        [] \<Rightarrow> Inr s
      | r # q \<Rightarrow>
          (case run_task r e (s\<lparr>ready := q\<rparr>) of
             Inl x \<Rightarrow> Inl x
           | Inr (Value, s1) \<Rightarrow> Inr (put r s1)
           | Inr (Request c, s1) \<Rightarrow> handle c r (time_time e) s1
           | Inr (Stop, s1) \<Rightarrow> task_exit r s1))"

text \<open>
  What happens to a scheduler: another thread calls \<open>new\<close> (with a generator that has
  not been resumed), \<open>joinall\<close> or \<open>shutdown\<close>, or the scheduler thread runs one iteration
  of its loop.
\<close>

datatype action =
    Submit gen tid
  | JoinAll "tid list" event tid
  | Shutdown
  | Tick env

definition act :: "action \<Rightarrow> sched \<Rightarrow> sched result" where
  "act a s =
     (case a of
        Submit g h \<Rightarrow> Inr (new (UserGen (unstarted g)) h s)
      | JoinAll coroutines ev h \<Rightarrow> Inr (joinall coroutines ev h s)
      | Shutdown \<Rightarrow> Inr (s\<lparr>running := False\<rparr>)
      | Tick e \<Rightarrow> (if running s then dispatch e s else Inr s))"

text \<open>A run: an exception that leaves the loop ends the thread, and nothing runs after it.\<close>

fun exec :: "action list \<Rightarrow> sched \<Rightarrow> sched result" where
  "exec [] s = Inr s"
| "exec (a # as) s = (case act a s of Inl x \<Rightarrow> Inl x | Inr s1 \<Rightarrow> exec as s1)"

text \<open>
  The scheduler when \<open>run\<close> enters its loop: the two background tasks have been submitted;
  \<open>h_io\<close> and \<open>h_time\<close> are their ids.
\<close>

definition started :: "tid \<Rightarrow> tid \<Rightarrow> sched" where
  "started h_io h_time = new TimePollTask h_time (new IoEpollTask h_io scheduler)"

subsection \<open>Placements\<close>

text \<open>
  The tasks held by the ready queue, by \<open>io_waiting\<close>, by the lists of \<open>time_waiting\<close> and by
  the lists of \<open>exit_waiting\<close>, with repetitions. The task the loop is resuming is in none
  of them: \<open>self.ready.get()\<close> has taken it out.
\<close>

definition occupants :: "sched \<Rightarrow> ref list" where
  "occupants s =
     ready s @ map snd (io_waiting s) @ concat (map snd (time_waiting s))
       @ concat (map snd (exit_waiting s))"

text \<open>
  What Python guarantees of the dicts (a key occurs once), and what the scheduler keeps
  of the epoll object: every descriptor of \<open>io_waiting\<close> is registered.
\<close>

definition dicts_ok :: "sched \<Rightarrow> bool" where
  "dicts_ok s \<longleftrightarrow>
     distinct (map fst (io_waiting s)) \<and> distinct (map fst (time_waiting s))
     \<and> distinct (map fst (exit_waiting s))
     \<and> set (map fst (io_waiting s)) \<subseteq> set (map fst (epoll s))"

text \<open>
  No task is held twice, and every task held has been allocated.
\<close>

definition placed_once :: "sched \<Rightarrow> bool" where
  "placed_once s \<longleftrightarrow>
     dicts_ok s \<and> distinct (occupants s) \<and> set (occupants s) \<subseteq> {..<next_ref s}"

text \<open>
  Task \<open>w\<close> waits in the list \<open>exit_waiting[w.tid]\<close>, and no other task that is held has
  its id.
\<close>

definition parked :: "ref \<Rightarrow> sched \<Rightarrow> bool" where
  "parked w s \<longleftrightarrow>
     placed_once s
     \<and> (\<exists>l. map_of (exit_waiting s) (tid (heap s w)) = Some l \<and> w \<in> set l)
     \<and> (\<forall>x\<in>set (occupants s). x \<noteq> w \<longrightarrow> tid (heap s x) \<noteq> tid (heap s w))"

text \<open>Whether \<open>close\<close> returns on the generator: it lets \<open>GeneratorExit\<close> through.\<close>

definition closes :: "target \<Rightarrow> bool" where
  "closes g =
     (case g of
        UserGen u \<Rightarrow> on_exit u = Exits
      | IoEpollTask \<Rightarrow> True
      | TimePollTask \<Rightarrow> True
      | WaitForTasks coroutines ev \<Rightarrow> True
      | Closed \<Rightarrow> True)"

text \<open>The id an action gives to a new Task object, if it makes one.\<close>

fun new_tid :: "action \<Rightarrow> tid option" where
  "new_tid (Submit g h) = Some h"
| "new_tid (JoinAll coroutines ev h) = Some h"
| "new_tid Shutdown = None"
| "new_tid (Tick e) = None"

subsection \<open>Task bodies and runs used as examples\<close>

text \<open>\<open>def stopper(): return; yield\<close>: returns at the first resume.\<close>

definition stopper :: gen where
  "stopper = Gen (\<lambda>_. StopIteration) Exits"

text \<open>\<open>def caller(c): yield c\<close>: yields one system call, then returns.\<close>

definition caller :: "syscall \<Rightarrow> gen" where
  "caller c = Gen (\<lambda>_. YieldCall c stopper) Exits"

text \<open>\<open>def raiser(): raise ValueError(); yield\<close>\<close>

definition raiser :: gen where
  "raiser = Gen (\<lambda>_. Raise) Exits"

text \<open>
  \<open>def stubborn(c): try: yield c; except GeneratorExit: yield\<close>: once suspended at its
  first \<open>yield\<close>, it answers \<open>GeneratorExit\<close> by yielding again.
\<close>

definition stubborn :: "syscall \<Rightarrow> gen" where
  "stubborn c = Gen (\<lambda>_. YieldCall c (Gen (\<lambda>_. StopIteration) (Yields stopper))) Exits"

text \<open>An iteration at time \<open>t\<close> in which \<open>epoll.poll\<close>, if called, reports \<open>fds\<close>.\<close>

definition at_time :: "rat \<Rightarrow> fd list \<Rightarrow> env" where
  "at_time t fds = \<lparr>time_time = t, poll_events = fds\<rparr>"


text \<open>
  A task that raises and a task that would return at once; \<open>failure_setup\<close> stops before
  the first of them is resumed, \<open>failure_run\<close> goes on for four iterations.
\<close>

definition failure_setup :: "sched result" where
  "failure_setup =
     exec [Submit raiser 1, Submit stopper 2, Tick (at_time 1 []), Tick (at_time 1 [])]
       (started 100 200)"

definition failure_run :: "sched result" where
  "failure_run =
     exec [Tick (at_time 1 []), Tick (at_time 1 []), Tick (at_time 1 []),
           Tick (at_time 1 [])]
       (projr failure_setup)"

text \<open>
  A task yields \<open>WaitForTime(1)\<close> at time \<open>3/2\<close> (\<open>sleep_parked\<close>); the time-poll task runs
  at time 2 (\<open>sleep_woken\<close>).
\<close>

definition sleep_parked :: "sched result" where
  "sleep_parked =
     exec [Submit (caller (WaitForTime 1)) 1,
           Tick (at_time 1 []), Tick (at_time 1 []), Tick (at_time (3 / 2) [])]
       (started 100 200)"

definition sleep_woken :: "sched result" where
  "sleep_woken =
     exec [Tick (at_time 2 []), Tick (at_time 2 [])] (projr sleep_parked)"

text \<open>One task that sleeps for zero seconds, and \<open>joinall([1])\<close> with event 0.\<close>

definition zero_sleep_run :: "sched result" where
  "zero_sleep_run =
     exec [Submit (caller (WaitForTime 0)) 1, JoinAll [1] 0 2,
           Tick (at_time 1 []), Tick (at_time 1 []), Tick (at_time 1 [])]
       (started 100 200)"

text \<open>
  A task waits for reading on descriptor 5 and another kills the time-poll task; after
  seven iterations the ready queue holds the I/O-poll task alone.
\<close>

definition poll_setup :: "sched result" where
  "poll_setup =
     exec [Submit (caller (ReadTask 5)) 1, Submit (caller (KillTask 200)) 2,
           Tick (at_time 1 []), Tick (at_time 1 []), Tick (at_time 1 []),
           Tick (at_time 1 []), Tick (at_time 1 []), Tick (at_time 1 []),
           Tick (at_time 1 [])]
       (started 100 200)"

text \<open>
  Task 1 waits for reading on descriptor 5 and task 2 is about to be resumed, to yield
  \<open>WaitForTask(1)\<close> (\<open>join_setup\<close>); then task 2 is parked, descriptor 5 becomes readable,
  and task 1 is about to be resumed for the last time (\<open>exit_setup\<close>).
\<close>

definition join_setup :: "sched result" where
  "join_setup =
     exec [Submit (caller (ReadTask 5)) 1, Submit (caller (WaitForTask 1)) 2,
           Tick (at_time 1 []), Tick (at_time 1 []), Tick (at_time 1 [])]
       (started 100 200)"

definition exit_setup :: "sched result" where
  "exit_setup =
     exec [Tick (at_time 1 []), Tick (at_time 1 [5]), Tick (at_time 1 [])]
       (projr join_setup)"



text \<open>
  A task (id 1, at address 2) about to be resumed, to yield \<open>KillTask(100)\<close>
  (\<open>kill_setup\<close>), and the iteration that resumes it (\<open>kill_done\<close>).
\<close>

definition kill_setup :: "sched result" where
  "kill_setup =
     exec [Submit (caller (KillTask 100)) 1, Tick (at_time 1 []), Tick (at_time 1 [])]
       (started 100 200)"


text \<open>
  A stubborn task (id 1, at address 2) waits for reading on descriptor 5, and task 2
  (address 3) is about to be resumed, to yield \<open>KillTask(1)\<close> (\<open>kill_stubborn_setup\<close>);
  \<open>kill_stubborn_run\<close> goes on for three iterations.
\<close>

definition kill_stubborn_setup :: "sched result" where
  "kill_stubborn_setup =
     exec [Submit (stubborn (ReadTask 5)) 1, Submit (caller (KillTask 1)) 2,
           Tick (at_time 1 []), Tick (at_time 1 []), Tick (at_time 1 [])]
       (started 100 200)"

definition kill_stubborn_run :: "sched result" where
  "kill_stubborn_run =
     exec [Tick (at_time 1 []), Tick (at_time 1 []), Tick (at_time 1 [])]
       (projr kill_stubborn_setup)"

text \<open>A task (id 1, at address 2) that waits for its own exit, about to be resumed.\<close>

definition self_join_setup :: "sched result" where
  "self_join_setup =
     exec [Submit (caller (WaitForTask 1)) 1, Tick (at_time 1 []), Tick (at_time 1 [])]
       (started 100 200)"

text \<open>What follows \<open>self_join_setup\<close>: five more iterations, and a task submitted.\<close>

definition self_join_later :: "action list" where
  "self_join_later =
     [Tick (at_time 1 []), Tick (at_time 1 []), Submit stopper 5, Tick (at_time 1 []),
      Tick (at_time 1 []), Tick (at_time 1 [])]"

section \<open>Properties\<close>

lemmas run_defs =
  started_def scheduler_def new_def joinall_def act_def dispatch_def run_task_def
  io_epoll_task_def time_poll_task_def epoll_poll_def queue_truth_def put_def
  set_target_def set_sendval_def close_def wait_for_read_def wait_for_write_def
  epoll_register_def epoll_unregister_def wait_for_exit_def wait_for_time_def
  task_exit_def exptime_of_def py_int_def Let_def occupants_def
  stopper_def caller_def at_time_def unstarted_def

subsection \<open>Association lists\<close>

lemma dom_delete: "fst ` set (AList.delete k al) = fst ` set al - {k}"
  using AList.delete_keys [of k al] by (metis list.set_map set_removeAll)

lemma map_of_delete_same: "map_of (AList.delete k al) k = None"
  by (simp add: AList.delete_conv')

lemma dom_Some: "map_of al k = Some v \<Longrightarrow> k \<in> fst ` set al"
  by (metis map_of_eq_None_iff option.distinct(1))

lemmas dom_simps = dom_delete AList.dom_update AList.dom_map_entry

lemma exit_waiting_entry:
  assumes "t \<in> fst ` set ew"
  shows "map_of (AList.map_entry t (\<lambda>l. l @ [w]) ew) t =
     Some ((case map_of ew t of None \<Rightarrow> [] | Some l \<Rightarrow> l) @ [w])"
proof (cases "map_of ew t")
  case None
  with assms show ?thesis
    by (simp add: map_of_eq_None_iff)
next
  case (Some l)
  then show ?thesis
    by (simp add: AList.map_of_map_entry)
qed

lemma exit_waiting_fresh:
  assumes "t \<notin> fst ` set ew"
  shows "map_of (AList.update t [w] ew) t =
     Some ((case map_of ew t of None \<Rightarrow> [] | Some l \<Rightarrow> l) @ [w])"
proof -
  from assms have "map_of ew t = None"
    by (simp add: map_of_eq_None_iff)
  then show ?thesis
    by (simp add: AList.update_conv')
qed

subsection \<open>Closing a generator\<close>

lemma close_Inr:
  assumes "close r s = Inr s'"
  shows "\<exists>h. s' = s\<lparr>heap := h\<rparr> \<and> target (h r) = Closed
     \<and> tid (h r) = tid (heap s r) \<and> sendval (h r) = sendval (heap s r)
     \<and> (\<forall>x. x \<noteq> r \<longrightarrow> h x = heap s x)"
proof (cases "target (heap s r) = Closed")
  case True
  with assms have "s' = s\<lparr>heap := heap s\<rparr>"
    by (simp add: close_def)
  with True show ?thesis
    by blast
next
  case False
  let ?h = "(heap s)(r := (heap s r)\<lparr>target := Closed\<rparr>)"
  from assms False have "s' = s\<lparr>heap := ?h\<rparr>"
    by (auto simp: close_def set_target_def split: target.splits closing.splits)
  moreover have "target (?h r) = Closed \<and> tid (?h r) = tid (heap s r)
     \<and> sendval (?h r) = sendval (heap s r) \<and> (\<forall>x. x \<noteq> r \<longrightarrow> ?h x = heap s x)"
    by simp
  ultimately show ?thesis
    by blast
qed

lemma close_tids:
  assumes "close r s = Inr s'"
  shows "tid (heap s' x) = tid (heap s x)"
proof -
  from close_Inr [OF assms] obtain h where "s' = s\<lparr>heap := h\<rparr>"
    and "tid (h r) = tid (heap s r)" and "\<forall>x. x \<noteq> r \<longrightarrow> h x = heap s x"
    by blast
  then show ?thesis
    by (cases "x = r") simp_all
qed

lemma close_fields:
  assumes "close r s = Inr s'"
  shows "ready s' = ready s \<and> taskmap s' = taskmap s \<and> exit_waiting s' = exit_waiting s
     \<and> io_waiting s' = io_waiting s \<and> time_waiting s' = time_waiting s
     \<and> epoll s' = epoll s \<and> next_ref s' = next_ref s \<and> running s' = running s"
proof -
  from close_Inr [OF assms] obtain h where "s' = s\<lparr>heap := h\<rparr>"
    by blast
  then show ?thesis
    by simp
qed

subsection \<open>The example runs\<close>

lemma floor_five_halves: "\<lfloor>5 / 2 :: rat\<rfloor> = 2"
  by linarith

subsection \<open>Failures of a task body\<close>

text \<open>
  C2, as stated (a failure raised by a task body is caught at the dispatch boundary, and
  the loop and the other tasks go on), does not hold. In \<open>failure_run\<close> the task at
  address 2 raises at its first resume: the run ends there with that failure, the ready
  queue still holds the tasks 3, 0 and 1, and task 3, which would return at its first
  resume, has not been resumed in the iterations that follow.
\<close>

theorem failure_not_contained:
  "isl failure_run \<and> fst (projl failure_run) = TaskFailure
   \<and> ready (snd (projl failure_run)) = [3, 0, 1]
   \<and> target (heap (snd (projl failure_run)) 3) = UserGen stopper"
  by (simp add: failure_run_def failure_setup_def raiser_def run_defs)

text \<open>
  C2, amended: the loop catches \<open>StopIteration\<close> only. When the body of the resumed task
  raises anything else, the exception leaves \<open>run\<close>: the iteration fails with the task
  taken out of the ready queue, and whatever is asked of the scheduler afterwards, no
  task is resumed again.
\<close>

theorem failure_ends_loop:
  assumes "running s" and "ready s = r # q" and "target (heap s r) = UserGen g"
    and "send g (sendval (heap s r)) = Raise"
  shows "exec (Tick e # acts) s = Inl (TaskFailure, set_target r Closed (s\<lparr>ready := q\<rparr>))"
  using assms by (simp add: act_def dispatch_def run_task_def set_target_def)

theorem failure_ends_loop_witness:
  "exec [Tick (at_time 1 []), Tick (at_time 1 [])] (projr failure_setup) =
     Inl (TaskFailure, set_target 2 Closed ((projr failure_setup)\<lparr>ready := [3, 0, 1]\<rparr>))"
proof -
  have 1: "running (projr failure_setup)"
    by (simp add: failure_setup_def run_defs)
  have 2: "ready (projr failure_setup) = 2 # [3, 0, 1]"
    by (simp add: failure_setup_def run_defs)
  have 3: "target (heap (projr failure_setup) 2) = UserGen raiser"
    by (simp add: failure_setup_def raiser_def run_defs)
  have 4: "send raiser (sendval (heap (projr failure_setup) 2)) = Raise"
    by (simp add: raiser_def)
  show ?thesis
    by (rule failure_ends_loop [OF 1 2 3 4])
qed

subsection \<open>Sleeping\<close>

text \<open>
  C3 (a task that yields \<open>WaitForTime(s)\<close> is not put back on the ready queue before \<open>s\<close>
  has passed) fails on the code: \<open>int\<close> truncates the deadline down to a multiple of \<open>s\<close>.
  A task that asks for 1 second at time \<open>3/2\<close> is filed under deadline 2, and the
  time-poll task that runs at time 2 puts it back on the ready queue, half a second
  after the request.
\<close>

theorem sleep_wakes_early:
  "time_waiting (projr sleep_parked) = [(2, [2])]
   \<and> ready (projr sleep_woken) = [0, 2, 1]
   \<and> (2 :: rat) < 3 / 2 + 1"
  by (simp add: sleep_woken_def sleep_parked_def run_defs floor_five_halves)

text \<open>
  C5 (tasks that sleep for zero seconds are handled without error and complete, and
  \<open>joinall\<close> returns after them) fails on the code: \<open>1.0 / self.seconds\<close> raises
  \<open>ZeroDivisionError\<close>, which leaves the loop. The run ends with that error, the event of
  \<open>joinall\<close> is never set, and the \<open>joinall\<close> task (address 3) and the background tasks
  are left on the ready queue.
\<close>

theorem zero_sleep_fails:
  "isl zero_sleep_run \<and> fst (projl zero_sleep_run) = ZeroDivisionError
   \<and> events (snd (projl zero_sleep_run)) = []
   \<and> ready (snd (projl zero_sleep_run)) = [3, 0, 1]"
  by (simp add: zero_sleep_run_def run_defs)

subsection \<open>The I/O-poll task\<close>

text \<open>
  C6 (with a non-empty waiting set, the I/O-poll task blocks in \<open>epoll.poll(-1)\<close> exactly
  when the ready queue is empty) fails on the code: \<open>not(self.ready)\<close> is false for every
  \<open>Queue\<close>. In \<open>poll_setup\<close> the ready queue holds the I/O-poll task alone and descriptor 5
  has a waiter; the iteration takes the task out, leaving the queue empty, and the task
  calls \<open>epoll.poll(0)\<close>.
\<close>

theorem io_poll_never_blocks:
  "ready (projr poll_setup) = [0]
   \<and> target (heap (projr poll_setup) 0) = IoEpollTask
   \<and> io_waiting (projr poll_setup) = [(5, 2)]
   \<and> polls (projr (dispatch (at_time 1 []) (projr poll_setup)))
       = polls (projr poll_setup) @ [0]"
  by (simp add: poll_setup_def run_defs)

subsection \<open>Waiting for another task\<close>

text \<open>
  C4: when task \<open>w\<close> yields \<open>WaitForTask(t)\<close> and \<open>t\<close> is in \<open>taskmap\<close>, the handler takes the
  id of \<open>w\<close> out of \<open>taskmap\<close>, appends \<open>w\<close> to the list \<open>exit_waiting[t]\<close>, and puts \<open>w\<close> on no
  queue; when \<open>t\<close> is not in \<open>taskmap\<close>, the handler puts \<open>w\<close> back on the ready queue with
  \<open>sendval = False\<close> and changes nothing else. (\<open>w\<close>, being the running task, has its id
  in \<open>taskmap\<close>; \<open>taskmap.pop\<close> would raise otherwise.)
\<close>

theorem wait_for_task_parks_or_requeues:
  "(t \<in> set (map fst (taskmap s)) \<longrightarrow> tid (heap s w) \<in> set (map fst (taskmap s)) \<longrightarrow>
      (\<exists>s'. handle (WaitForTask t) w time_now s = Inr s'
         \<and> taskmap s' = AList.delete (tid (heap s w)) (taskmap s)
         \<and> tid (heap s w) \<notin> set (map fst (taskmap s'))
         \<and> map_of (exit_waiting s') t =
             Some ((case map_of (exit_waiting s) t of None \<Rightarrow> [] | Some l \<Rightarrow> l) @ [w])
         \<and> ready s' = ready s \<and> io_waiting s' = io_waiting s
         \<and> time_waiting s' = time_waiting s
         \<and> sendval (heap s' w) = PyBool True))
   \<and> (t \<notin> set (map fst (taskmap s)) \<longrightarrow>
      (\<exists>s'. handle (WaitForTask t) w time_now s = Inr s'
         \<and> ready s' = ready s @ [w]
         \<and> sendval (heap s' w) = PyBool False
         \<and> taskmap s' = taskmap s \<and> exit_waiting s' = exit_waiting s
         \<and> io_waiting s' = io_waiting s \<and> time_waiting s' = time_waiting s))"
  by (simp add: wait_for_exit_def set_sendval_def put_def Let_def dom_simps
      exit_waiting_entry exit_waiting_fresh)

theorem wait_for_task_parks_or_requeues_witness:
  "(\<exists>s'. handle (WaitForTask 1) 3 1 ((projr join_setup)\<lparr>ready := [0, 1]\<rparr>) = Inr s'
      \<and> taskmap s' = [(100, 0), (200, 1), (1, 2)]
      \<and> map_of (exit_waiting s') 1 = Some [3]
      \<and> ready s' = [0, 1]
      \<and> sendval (heap s' 3) = PyBool True)
   \<and> (\<exists>s'. handle (WaitForTask 7) 3 1 ((projr join_setup)\<lparr>ready := [0, 1]\<rparr>) = Inr s'
      \<and> ready s' = [0, 1, 3]
      \<and> sendval (heap s' 3) = PyBool False
      \<and> taskmap s' = [(100, 0), (200, 1), (1, 2), (2, 3)])"
  using wait_for_task_parks_or_requeues [of 1 "(projr join_setup)\<lparr>ready := [0, 1]\<rparr>" 3 1]
    wait_for_task_parks_or_requeues [of 7 "(projr join_setup)\<lparr>ready := [0, 1]\<rparr>" 3 1]
  by (simp add: join_setup_def run_defs)

subsection \<open>Completion\<close>

lemma notify_ready: "ready (notify os s) = ready s @ os"
  by (induction os arbitrary: s) (simp_all add: put_def)

lemma notify_heap: "heap (notify os s) = heap s"
  by (induction os arbitrary: s) (simp_all add: put_def)

lemma notify_exit_waiting: "exit_waiting (notify os s) = exit_waiting s"
  by (induction os arbitrary: s) (simp_all add: put_def)

lemma notify_io_waiting: "io_waiting (notify os s) = io_waiting s"
  by (induction os arbitrary: s) (simp_all add: put_def)

lemma notify_time_waiting: "time_waiting (notify os s) = time_waiting s"
  by (induction os arbitrary: s) (simp_all add: put_def)

lemma notify_keys:
  "fst ` set (taskmap (notify os s)) =
     fst ` set (taskmap s) \<union> (\<lambda>x. tid (heap s x)) ` set os"
proof (induction os arbitrary: s)
  case Nil
  show ?case by simp
next
  case (Cons x os)
  show ?case
    by (simp add: Cons.IH put_def dom_simps)
qed

lemma notify_taskmap:
  "taskmap (notify os s) =
     foldl (\<lambda>m x. AList.update (tid (heap s x)) x m) (taskmap s) os"
  by (induction os arbitrary: s) (simp_all add: put_def)

lemma notify_other:
  "k \<notin> (\<lambda>x. tid (heap s x)) ` set os \<Longrightarrow>
     map_of (taskmap (notify os s)) k = map_of (taskmap s) k"
  by (induction os arbitrary: s) (simp_all add: put_def AList.update_conv')

lemma notify_entry:
  "distinct (map (\<lambda>x. tid (heap s x)) os) \<Longrightarrow> x \<in> set os \<Longrightarrow>
     map_of (taskmap (notify os s)) (tid (heap s x)) = Some x"
proof (induction os arbitrary: s)
  case Nil
  then show ?case by simp
next
  case (Cons y os)
  let ?m = "put y (s\<lparr>taskmap := AList.update (tid (heap s y)) y (taskmap s)\<rparr>)"
  have h: "heap ?m = heap s"
    by (simp add: put_def)
  show ?case
  proof (cases "x = y")
    case True
    from Cons.prems(1) have "tid (heap ?m y) \<notin> (\<lambda>x. tid (heap ?m x)) ` set os"
      by (simp add: h)
    from notify_other [OF this] True show ?thesis
      by (simp add: put_def AList.update_conv')
  next
    case False
    with Cons.prems have "distinct (map (\<lambda>x. tid (heap ?m x)) os)" and "x \<in> set os"
      by (simp_all add: h)
    from Cons.IH [OF this] show ?thesis
      by (simp add: h)
  qed
qed

text \<open>
  C8: when the resumed task \<open>r\<close> raises \<open>StopIteration\<close>, the loop deletes the id of \<open>r\<close> from
  \<open>taskmap\<close>, enters every task of \<open>exit_waiting[r.tid]\<close> in \<open>taskmap\<close> under its id, in the
  order of the list (so that, the ids of these tasks being distinct, each id leads to
  its task, and the other entries of \<open>taskmap\<close> are as they were), appends these tasks
  to the ready queue in the order of the list, and removes the entry
  \<open>exit_waiting[r.tid]\<close>; the other containers are as they were. (\<open>s1\<close> is the scheduler
  when \<open>task.run()\<close> has raised; the id of \<open>r\<close> is in \<open>taskmap\<close> there, \<open>del\<close> would raise
  otherwise.)
\<close>

theorem completion_notifies_waiters:
  assumes "ready s = r # q"
    and "run_task r e (s\<lparr>ready := q\<rparr>) = Inr (Stop, s1)"
    and "tid (heap s1 r) \<in> set (map fst (taskmap s1))"
  shows "\<exists>s'. dispatch e s = Inr s'
      \<and> set (map fst (taskmap s')) =
          (set (map fst (taskmap s1)) - {tid (heap s1 r)})
            \<union> (\<lambda>x. tid (heap s1 x)) `
                set (case map_of (exit_waiting s1) (tid (heap s1 r)) of
                       None \<Rightarrow> [] | Some others \<Rightarrow> others)
      \<and> ready s' =
          ready s1 @ (case map_of (exit_waiting s1) (tid (heap s1 r)) of
                        None \<Rightarrow> [] | Some others \<Rightarrow> others)
      \<and> map_of (exit_waiting s') (tid (heap s1 r)) = None
      \<and> heap s' = heap s1
      \<and> taskmap s' =
          foldl (\<lambda>m x. AList.update (tid (heap s1 x)) x m)
            (AList.delete (tid (heap s1 r)) (taskmap s1))
            (case map_of (exit_waiting s1) (tid (heap s1 r)) of
               None \<Rightarrow> [] | Some others \<Rightarrow> others)
      \<and> (distinct (map (\<lambda>x. tid (heap s1 x))
                      (case map_of (exit_waiting s1) (tid (heap s1 r)) of
                         None \<Rightarrow> [] | Some others \<Rightarrow> others)) \<longrightarrow>
           (\<forall>x\<in>set (case map_of (exit_waiting s1) (tid (heap s1 r)) of
                       None \<Rightarrow> [] | Some others \<Rightarrow> others).
              map_of (taskmap s') (tid (heap s1 x)) = Some x))
      \<and> (\<forall>k. k \<notin> (\<lambda>x. tid (heap s1 x)) `
                    set (case map_of (exit_waiting s1) (tid (heap s1 r)) of
                           None \<Rightarrow> [] | Some others \<Rightarrow> others) \<longrightarrow>
              map_of (taskmap s') k =
                (if k = tid (heap s1 r) then None else map_of (taskmap s1) k))
      \<and> exit_waiting s' = AList.delete (tid (heap s1 r)) (exit_waiting s1)
      \<and> io_waiting s' = io_waiting s1 \<and> time_waiting s' = time_waiting s1"
proof (cases "map_of (exit_waiting s1) (tid (heap s1 r))")
  case None
  then have "tid (heap s1 r) \<notin> fst ` set (exit_waiting s1)"
    by (simp add: map_of_eq_None_iff)
  then have "AList.delete (tid (heap s1 r)) (exit_waiting s1) = exit_waiting s1"
    by (rule AList.delete_id)
  with assms None show ?thesis
    by (simp add: dispatch_def task_exit_def Let_def dom_simps AList.delete_conv')
next
  case (Some others)
  let ?t = "tid (heap s1 r)"
  let ?m = "s1\<lparr>taskmap := AList.delete ?t (taskmap s1),
               exit_waiting := AList.delete ?t (exit_waiting s1)\<rparr>"
  from assms Some have d: "dispatch e s = Inr (notify others ?m)"
    by (simp add: dispatch_def task_exit_def Let_def)
  have h: "heap ?m = heap s1"
    by simp
  have entry: "distinct (map (\<lambda>x. tid (heap s1 x)) others) \<longrightarrow>
      (\<forall>x\<in>set others. map_of (taskmap (notify others ?m)) (tid (heap s1 x)) = Some x)"
    using notify_entry [of ?m others] by (simp add: h)
  have other: "\<forall>k. k \<notin> (\<lambda>x. tid (heap s1 x)) ` set others \<longrightarrow>
      map_of (taskmap (notify others ?m)) k =
        (if k = ?t then None else map_of (taskmap s1) k)"
    using notify_other [of _ ?m others] by (simp add: h AList.delete_conv')
  have "fst ` set (taskmap (notify others ?m)) =
      (fst ` set (taskmap s1) - {?t}) \<union> (\<lambda>x. tid (heap s1 x)) ` set others"
    by (simp add: notify_keys dom_simps)
  moreover have "taskmap (notify others ?m) =
      foldl (\<lambda>m x. AList.update (tid (heap s1 x)) x m) (AList.delete ?t (taskmap s1)) others"
    by (simp add: notify_taskmap)
  moreover have "ready (notify others ?m) = ready s1 @ others"
    "map_of (exit_waiting (notify others ?m)) ?t = None"
    "heap (notify others ?m) = heap s1"
    "exit_waiting (notify others ?m) = AList.delete ?t (exit_waiting s1)"
    "io_waiting (notify others ?m) = io_waiting s1"
    "time_waiting (notify others ?m) = time_waiting s1"
    by (simp_all add: notify_ready notify_heap notify_exit_waiting notify_io_waiting
        notify_time_waiting map_of_delete_same)
  ultimately show ?thesis
    using d Some entry other by simp
qed

theorem completion_notifies_waiters_witness:
  "\<exists>s'. dispatch (at_time 1 []) (projr exit_setup) = Inr s'
      \<and> set (map fst (taskmap s')) = {100, 200, 2}
      \<and> ready s' = [0, 1, 3]
      \<and> map_of (exit_waiting s') 1 = None
      \<and> taskmap s' = [(100, 0), (200, 1), (2, 3)]
      \<and> map_of (taskmap s') 2 = Some 3
      \<and> map_of (taskmap s') 1 = None"
proof -
  let ?s1 = "set_target 2 Closed ((projr exit_setup)\<lparr>ready := [0, 1]\<rparr>)"
  have 1: "ready (projr exit_setup) = 2 # [0, 1]"
    by (simp add: exit_setup_def join_setup_def run_defs)
  have 2: "run_task 2 (at_time 1 []) ((projr exit_setup)\<lparr>ready := [0, 1]\<rparr>)
             = Inr (Stop, ?s1)"
    by (simp add: exit_setup_def join_setup_def run_defs)
  have 3: "tid (heap ?s1 2) \<in> set (map fst (taskmap ?s1))"
    by (simp add: exit_setup_def join_setup_def run_defs)
  have 4: "map_of (exit_waiting ?s1) (tid (heap ?s1 2)) = Some [3]"
    "tid (heap ?s1 2) = 1" "tid (heap ?s1 3) = 2"
    "taskmap ?s1 = [(100, 0), (200, 1), (1, 2)]"
    by (simp_all add: exit_setup_def join_setup_def run_defs)
  from completion_notifies_waiters [OF 1 2 3] obtain s'
    where "dispatch (at_time 1 []) (projr exit_setup) = Inr s'"
      and "set (map fst (taskmap s')) =
          (set (map fst (taskmap ?s1)) - {tid (heap ?s1 2)})
            \<union> (\<lambda>x. tid (heap ?s1 x)) `
                set (case map_of (exit_waiting ?s1) (tid (heap ?s1 2)) of
                       None \<Rightarrow> [] | Some others \<Rightarrow> others)"
      and "ready s' =
          ready ?s1 @ (case map_of (exit_waiting ?s1) (tid (heap ?s1 2)) of
                        None \<Rightarrow> [] | Some others \<Rightarrow> others)"
      and "map_of (exit_waiting s') (tid (heap ?s1 2)) = None"
      and "taskmap s' =
          foldl (\<lambda>m x. AList.update (tid (heap ?s1 x)) x m)
            (AList.delete (tid (heap ?s1 2)) (taskmap ?s1))
            (case map_of (exit_waiting ?s1) (tid (heap ?s1 2)) of
               None \<Rightarrow> [] | Some others \<Rightarrow> others)"
      and "distinct (map (\<lambda>x. tid (heap ?s1 x))
                      (case map_of (exit_waiting ?s1) (tid (heap ?s1 2)) of
                         None \<Rightarrow> [] | Some others \<Rightarrow> others)) \<longrightarrow>
           (\<forall>x\<in>set (case map_of (exit_waiting ?s1) (tid (heap ?s1 2)) of
                       None \<Rightarrow> [] | Some others \<Rightarrow> others).
              map_of (taskmap s') (tid (heap ?s1 x)) = Some x)"
      and "\<forall>k. k \<notin> (\<lambda>x. tid (heap ?s1 x)) `
                    set (case map_of (exit_waiting ?s1) (tid (heap ?s1 2)) of
                           None \<Rightarrow> [] | Some others \<Rightarrow> others) \<longrightarrow>
              map_of (taskmap s') k =
                (if k = tid (heap ?s1 2) then None else map_of (taskmap ?s1) k)"
    by blast
  with 4 have "dispatch (at_time 1 []) (projr exit_setup) = Inr s'
      \<and> set (map fst (taskmap s')) = {100, 200, 2}
      \<and> ready s' = [0, 1, 3]
      \<and> map_of (exit_waiting s') 1 = None
      \<and> taskmap s' = [(100, 0), (200, 1), (2, 3)]
      \<and> map_of (taskmap s') 2 = Some 3
      \<and> map_of (taskmap s') 1 = None"
    by (simp add: set_target_def insert_commute)
  then show ?thesis
    by blast
qed

subsection \<open>Killing a task\<close>

lemma close_clean:
  assumes "closes (target (heap s d))"
  shows "\<exists>s1. close d s = Inr s1"
  using assms
  by (cases "target (heap s d)") (simp_all add: close_def closes_def)

lemma close_fails:
  assumes "\<not> closes (target (heap s d))"
  shows "\<exists>x g. close d s = Inl (x, set_target d g s) \<and> (x = RuntimeError \<or> x = TaskFailure)"
proof -
  from assms obtain u where u: "target (heap s d) = UserGen u" "on_exit u \<noteq> Exits"
    by (cases "target (heap s d)") (simp_all add: closes_def)
  then show ?thesis
    by (cases "on_exit u") (auto simp: close_def)
qed

text \<open>
  C9, as stated (whether or not the target is in \<open>taskmap\<close>, the handler of \<open>KillTask\<close> puts
  the caller back on the ready queue once), does not hold. In \<open>kill_stubborn_setup\<close> the
  task with id 1 is in \<open>taskmap\<close>, suspended at a \<open>yield\<close> inside a \<open>try\<close> that catches
  \<open>GeneratorExit\<close> and yields again. When task 2 (address 3) yields \<open>KillTask(1)\<close>,
  \<open>dtask.target.close()\<close> raises \<open>RuntimeError\<close> before \<open>task.sendval = True\<close> and
  \<open>scheduler.ready.put(task)\<close>: the run ends with that error, the caller is not on the
  ready queue and its \<open>sendval\<close> is still \<open>None\<close>.
\<close>

theorem kill_fails:
  "map_of (taskmap (projr kill_stubborn_setup)) 1 = Some 2
   \<and> ready (projr kill_stubborn_setup) = [3, 0, 1]
   \<and> isl kill_stubborn_run \<and> fst (projl kill_stubborn_run) = RuntimeError
   \<and> ready (snd (projl kill_stubborn_run)) = [0, 1]
   \<and> sendval (heap (snd (projl kill_stubborn_run)) 3) = PyNone"
  by (simp add: kill_stubborn_run_def kill_stubborn_setup_def stubborn_def run_defs)

text \<open>
  C9, amended: when \<open>t\<close> is not in \<open>taskmap\<close>, the handler of \<open>KillTask(t)\<close> touches no
  generator, gives the caller \<open>sendval = False\<close> and appends it to the ready queue once.
  When \<open>t\<close> is in \<open>taskmap\<close> and the generator of that task lets \<open>GeneratorExit\<close> through (as
  the generators of the scheduler do, and every generator that has not started or has
  finished), the handler closes it, so that its next resume raises \<open>StopIteration\<close>,
  gives the caller \<open>sendval = True\<close> and appends it to the ready queue once. In both cases
  the handler does not raise, the result is a value the caller receives at its next
  resume, and nothing else changes: the target stays in \<open>taskmap\<close> and where it is held.
  When \<open>t\<close> is in \<open>taskmap\<close> and the generator of that task intercepts \<open>GeneratorExit\<close>, the
  handler raises (\<open>RuntimeError\<close>, or what the generator raised) before it touches the
  caller: the caller is not put on the ready queue and keeps its \<open>sendval\<close>.
\<close>

theorem kill_requeues_caller:
  "(map_of (taskmap s) t = None \<longrightarrow>
      (\<exists>s'. handle (KillTask t) r time_now s = Inr s'
         \<and> ready s' = ready s @ [r]
         \<and> sendval (heap s' r) = PyBool False
         \<and> (\<forall>x. target (heap s' x) = target (heap s x))
         \<and> taskmap s' = taskmap s \<and> exit_waiting s' = exit_waiting s
         \<and> io_waiting s' = io_waiting s \<and> time_waiting s' = time_waiting s))
   \<and> (\<forall>dtask. map_of (taskmap s) t = Some dtask \<longrightarrow> closes (target (heap s dtask)) \<longrightarrow>
      (\<exists>s'. handle (KillTask t) r time_now s = Inr s'
         \<and> ready s' = ready s @ [r]
         \<and> sendval (heap s' r) = PyBool True
         \<and> target (heap s' dtask) = Closed
         \<and> (\<forall>e. run_task dtask e s' = Inr (Stop, s'))
         \<and> (\<forall>x. x \<noteq> dtask \<longrightarrow> target (heap s' x) = target (heap s x))
         \<and> taskmap s' = taskmap s \<and> exit_waiting s' = exit_waiting s
         \<and> io_waiting s' = io_waiting s \<and> time_waiting s' = time_waiting s))
   \<and> (\<forall>dtask. map_of (taskmap s) t = Some dtask \<longrightarrow> \<not> closes (target (heap s dtask)) \<longrightarrow>
      (\<exists>x s'. handle (KillTask t) r time_now s = Inl (x, s')
         \<and> (x = RuntimeError \<or> x = TaskFailure)
         \<and> ready s' = ready s
         \<and> sendval (heap s' r) = sendval (heap s r)
         \<and> taskmap s' = taskmap s \<and> exit_waiting s' = exit_waiting s
         \<and> io_waiting s' = io_waiting s \<and> time_waiting s' = time_waiting s))"
proof (intro conjI allI impI)
  assume "map_of (taskmap s) t = None"
  then show "\<exists>s'. handle (KillTask t) r time_now s = Inr s'
         \<and> ready s' = ready s @ [r]
         \<and> sendval (heap s' r) = PyBool False
         \<and> (\<forall>x. target (heap s' x) = target (heap s x))
         \<and> taskmap s' = taskmap s \<and> exit_waiting s' = exit_waiting s
         \<and> io_waiting s' = io_waiting s \<and> time_waiting s' = time_waiting s"
    by (simp add: put_def set_sendval_def)
next
  fix dtask
  assume d: "map_of (taskmap s) t = Some dtask" and c: "closes (target (heap s dtask))"
  from close_clean [OF c] obtain s1 where s1: "close dtask s = Inr s1"
    by blast
  from close_Inr [OF s1] obtain h where h: "s1 = s\<lparr>heap := h\<rparr>" "target (h dtask) = Closed"
    "\<forall>x. x \<noteq> dtask \<longrightarrow> h x = heap s x"
    by blast
  let ?s' = "put r (set_sendval r (PyBool True) s1)"
  from d s1 have "handle (KillTask t) r time_now s = Inr ?s'"
    by simp
  moreover from h have "ready ?s' = ready s @ [r]" "sendval (heap ?s' r) = PyBool True"
    "target (heap ?s' dtask) = Closed"
    "\<forall>x. x \<noteq> dtask \<longrightarrow> target (heap ?s' x) = target (heap s x)"
    "taskmap ?s' = taskmap s" "exit_waiting ?s' = exit_waiting s"
    "io_waiting ?s' = io_waiting s" "time_waiting ?s' = time_waiting s"
    by (auto simp: put_def set_sendval_def)
  moreover from \<open>target (heap ?s' dtask) = Closed\<close>
  have "\<forall>e. run_task dtask e ?s' = Inr (Stop, ?s')"
    by (simp add: run_task_def)
  ultimately show "\<exists>s'. handle (KillTask t) r time_now s = Inr s'
         \<and> ready s' = ready s @ [r]
         \<and> sendval (heap s' r) = PyBool True
         \<and> target (heap s' dtask) = Closed
         \<and> (\<forall>e. run_task dtask e s' = Inr (Stop, s'))
         \<and> (\<forall>x. x \<noteq> dtask \<longrightarrow> target (heap s' x) = target (heap s x))
         \<and> taskmap s' = taskmap s \<and> exit_waiting s' = exit_waiting s
         \<and> io_waiting s' = io_waiting s \<and> time_waiting s' = time_waiting s"
    by blast
next
  fix dtask
  assume d: "map_of (taskmap s) t = Some dtask" and c: "\<not> closes (target (heap s dtask))"
  from close_fails [OF c] obtain x g where
    x: "close dtask s = Inl (x, set_target dtask g s)" "x = RuntimeError \<or> x = TaskFailure"
    by blast
  with d have "handle (KillTask t) r time_now s = Inl (x, set_target dtask g s)"
    by simp
  with x(2) show "\<exists>x s'. handle (KillTask t) r time_now s = Inl (x, s')
         \<and> (x = RuntimeError \<or> x = TaskFailure)
         \<and> ready s' = ready s
         \<and> sendval (heap s' r) = sendval (heap s r)
         \<and> taskmap s' = taskmap s \<and> exit_waiting s' = exit_waiting s
         \<and> io_waiting s' = io_waiting s \<and> time_waiting s' = time_waiting s"
    by (auto simp: set_target_def)
qed

theorem kill_requeues_caller_witness:
  "(\<exists>s'. handle (KillTask 7) 2 1 ((projr kill_setup)\<lparr>ready := [0, 1]\<rparr>) = Inr s'
     \<and> ready s' = [0, 1, 2]
     \<and> sendval (heap s' 2) = PyBool False
     \<and> target (heap s' 0) = IoEpollTask)
   \<and> (\<exists>s'. handle (KillTask 100) 2 1 ((projr kill_setup)\<lparr>ready := [0, 1]\<rparr>) = Inr s'
     \<and> ready s' = [0, 1, 2]
     \<and> sendval (heap s' 2) = PyBool True \<and> target (heap s' 0) = Closed
     \<and> taskmap s' = [(100, 0), (200, 1), (1, 2)])
   \<and> (\<exists>x s'. handle (KillTask 1) 3 1 ((projr kill_stubborn_setup)\<lparr>ready := [0, 1]\<rparr>)
                = Inl (x, s')
     \<and> ready s' = [0, 1]
     \<and> sendval (heap s' 3) = PyNone)"
proof -
  let ?k = "(projr kill_setup)\<lparr>ready := [0, 1]\<rparr>"
  let ?b = "(projr kill_stubborn_setup)\<lparr>ready := [0, 1]\<rparr>"
  have 1: "map_of (taskmap ?k) 7 = None"
    by (simp add: kill_setup_def run_defs)
  have 2: "map_of (taskmap ?k) 100 = Some 0" "closes (target (heap ?k 0))"
    by (simp_all add: kill_setup_def closes_def run_defs)
  have 3: "map_of (taskmap ?b) 1 = Some 2" "\<not> closes (target (heap ?b 2))"
    by (simp_all add: kill_stubborn_setup_def stubborn_def closes_def run_defs)
  have 4: "ready ?k = [0, 1]" "target (heap ?k 0) = IoEpollTask"
    "taskmap ?k = [(100, 0), (200, 1), (1, 2)]"
    "ready ?b = [0, 1]" "sendval (heap ?b 3) = PyNone"
    by (simp_all add: kill_setup_def kill_stubborn_setup_def stubborn_def run_defs)
  from kill_requeues_caller [of ?k 7 2 1] 1
  have "\<exists>s'. handle (KillTask 7) 2 1 ?k = Inr s'
     \<and> ready s' = ready ?k @ [2]
     \<and> sendval (heap s' 2) = PyBool False
     \<and> (\<forall>x. target (heap s' x) = target (heap ?k x))"
    by blast
  moreover from kill_requeues_caller [of ?k 100 2 1] 2
  have "\<exists>s'. handle (KillTask 100) 2 1 ?k = Inr s'
     \<and> ready s' = ready ?k @ [2]
     \<and> sendval (heap s' 2) = PyBool True \<and> target (heap s' 0) = Closed
     \<and> taskmap s' = taskmap ?k"
    by blast
  moreover from kill_requeues_caller [of ?b 1 3 1] 3
  have "\<exists>x s'. handle (KillTask 1) 3 1 ?b = Inl (x, s')
     \<and> ready s' = ready ?b
     \<and> sendval (heap s' 3) = sendval (heap ?b 3)"
    by blast
  ultimately show ?thesis
    using 4 by simp
qed

subsection \<open>What one iteration does to the containers\<close>

lemma delete_values:
  "distinct (map fst al) \<Longrightarrow> map_of al k = Some v \<Longrightarrow>
     mset (map snd al) = mset (map snd (AList.delete k al)) + {#v#}"
proof (induction al)
  case Nil
  then show ?case by simp
next
  case (Cons p al)
  show ?case
  proof (cases "fst p = k")
    case True
    with Cons.prems have "k \<notin> fst ` set al" and "snd p = v"
      by auto
    with True show ?thesis
      by (simp add: AList.delete_id)
  next
    case False
    with Cons show ?thesis
      by (cases p) simp
  qed
qed

lemma delete_lists:
  "distinct (map fst al) \<Longrightarrow> map_of al k = Some l \<Longrightarrow>
     mset (concat (map snd al)) = mset (concat (map snd (AList.delete k al))) + mset l"
proof (induction al)
  case Nil
  then show ?case by simp
next
  case (Cons p al)
  show ?case
  proof (cases "fst p = k")
    case True
    with Cons.prems have "k \<notin> fst ` set al" and "snd p = l"
      by auto
    with True show ?thesis
      by (simp add: AList.delete_id)
  next
    case False
    with Cons show ?thesis
      by (cases p) simp
  qed
qed

lemma map_entry_lists:
  "k \<in> fst ` set al \<Longrightarrow>
     mset (concat (map snd (AList.map_entry k (\<lambda>l. l @ [r]) al)))
       = mset (concat (map snd al)) + {#r#}"
  by (induction al) auto

lemma update_fresh: "k \<notin> fst ` set al \<Longrightarrow> AList.update k v al = al @ [(k, v)]"
  by (induction al) auto

lemma mset_occupants:
  "mset (occupants s) =
     mset (ready s) + mset (map snd (io_waiting s)) + mset (concat (map snd (time_waiting s)))
       + mset (concat (map snd (exit_waiting s)))"
  by (simp add: occupants_def)

lemma epoll_loop_frame:
  "epoll_loop fds s = Inr s' \<Longrightarrow>
     taskmap s' = taskmap s \<and> heap s' = heap s \<and> next_ref s' = next_ref s
     \<and> time_waiting s' = time_waiting s \<and> exit_waiting s' = exit_waiting s
     \<and> running s' = running s \<and> events s' = events s"
  by (induction fds arbitrary: s)
    (auto simp: epoll_unregister_def put_def split: option.splits if_splits)

lemma epoll_loop_occupants:
  "epoll_loop fds s = Inr s' \<Longrightarrow> dicts_ok s \<Longrightarrow>
     dicts_ok s' \<and> mset (occupants s') = mset (occupants s)"
proof (induction fds arbitrary: s)
  case Nil
  then show ?case by simp
next
  case (Cons f fds)
  from Cons.prems(1) obtain r where r: "map_of (io_waiting s) f = Some r"
    by (auto split: option.splits)
  let ?m = "(put r (s\<lparr>io_waiting := AList.delete f (io_waiting s)\<rparr>))
              \<lparr>epoll := AList.delete f (epoll s)\<rparr>"
  from Cons.prems(1) r have run: "epoll_loop fds ?m = Inr s'"
    by (auto simp: epoll_unregister_def put_def split: if_splits)
  from Cons.prems(2) have ok: "dicts_ok ?m"
    by (auto simp: dicts_ok_def put_def AList.distinct_delete dom_delete)
  from Cons.prems(2) r have "mset (occupants ?m) = mset (occupants s)"
    using delete_values [of "io_waiting s" f r]
    by (simp add: mset_occupants put_def dicts_ok_def)
  with Cons.IH [OF run ok] show ?case
    by simp
qed

lemma time_poll_loop_frame:
  "time_poll_loop t ks s = Inr s' \<Longrightarrow>
     taskmap s' = taskmap s \<and> heap s' = heap s \<and> next_ref s' = next_ref s
     \<and> io_waiting s' = io_waiting s \<and> exit_waiting s' = exit_waiting s
     \<and> epoll s' = epoll s
     \<and> running s' = running s \<and> events s' = events s"
  by (induction ks arbitrary: s) (auto split: option.splits if_splits)

lemma time_poll_loop_occupants:
  "time_poll_loop t ks s = Inr s' \<Longrightarrow> dicts_ok s \<Longrightarrow>
     dicts_ok s' \<and> mset (occupants s') = mset (occupants s)"
proof (induction ks arbitrary: s)
  case Nil
  then show ?case by simp
next
  case (Cons k ks)
  show ?case
  proof (cases "k \<le> t")
    case False
    with Cons show ?thesis by simp
  next
    case True
    with Cons.prems(1) obtain l where l: "map_of (time_waiting s) k = Some l"
      by (auto split: option.splits)
    let ?m = "s\<lparr>time_waiting := AList.delete k (time_waiting s), ready := ready s @ l\<rparr>"
    from Cons.prems(1) True l have run: "time_poll_loop t ks ?m = Inr s'"
      by simp
    from Cons.prems(2) have ok: "dicts_ok ?m"
      by (auto simp: dicts_ok_def AList.distinct_delete)
    from Cons.prems(2) l have "mset (occupants ?m) = mset (occupants s)"
      using delete_lists [of "time_waiting s" k l]
      by (simp add: mset_occupants dicts_ok_def)
    with Cons.IH [OF run ok] show ?thesis
      by simp
  qed
qed

lemma notify_rest:
  "epoll (notify os s) = epoll s \<and> next_ref (notify os s) = next_ref s
   \<and> running (notify os s) = running s \<and> events (notify os s) = events s"
  by (induction os arbitrary: s) (simp_all add: put_def)

lemmas notify_simps =
  notify_ready notify_heap notify_exit_waiting notify_io_waiting notify_time_waiting
  notify_rest

lemma run_task_frame:
  assumes "run_task r e s = Inr (p, s1)"
  shows "taskmap s1 = taskmap s \<and> next_ref s1 = next_ref s
     \<and> (\<forall>x. tid (heap s1 x) = tid (heap s x))
     \<and> exit_waiting s1 = exit_waiting s \<and> running s1 = running s"
proof (cases "target (heap s r)")
  case IoEpollTask
  with assms show ?thesis
    by (auto simp: run_task_def io_epoll_task_def epoll_poll_def queue_truth_def
        split: sum.splits if_splits dest!: epoll_loop_frame)
next
  case TimePollTask
  with assms show ?thesis
    by (auto simp: run_task_def time_poll_task_def split: sum.splits
        dest!: time_poll_loop_frame)
next
  case (WaitForTasks ts ev)
  with assms show ?thesis
    by (auto simp: run_task_def set_target_def split: option.splits)
next
  case (UserGen g)
  with assms show ?thesis
    by (auto simp: run_task_def set_target_def split: outcome.splits)
next
  case Closed
  with assms show ?thesis
    by (auto simp: run_task_def)
qed

lemma dicts_ok_update:
  "dicts_ok (s\<lparr>polls := a\<rparr>) = dicts_ok s"
  "dicts_ok (s\<lparr>heap := b\<rparr>) = dicts_ok s"
  "dicts_ok (s\<lparr>events := c\<rparr>) = dicts_ok s"
  "dicts_ok (s\<lparr>ready := d\<rparr>) = dicts_ok s"
  "dicts_ok (s\<lparr>taskmap := f\<rparr>) = dicts_ok s"
  "dicts_ok (s\<lparr>running := g\<rparr>) = dicts_ok s"
  "dicts_ok (s\<lparr>next_ref := h\<rparr>) = dicts_ok s"
  by (simp_all add: dicts_ok_def)

lemma occupants_update:
  "occupants (s\<lparr>polls := a\<rparr>) = occupants s"
  "occupants (s\<lparr>heap := b\<rparr>) = occupants s"
  "occupants (s\<lparr>events := c\<rparr>) = occupants s"
  "occupants (s\<lparr>epoll := d\<rparr>) = occupants s"
  "occupants (s\<lparr>taskmap := f\<rparr>) = occupants s"
  "occupants (s\<lparr>running := g\<rparr>) = occupants s"
  "occupants (s\<lparr>next_ref := h\<rparr>) = occupants s"
  by (simp_all add: occupants_def)

lemma run_task_occupants:
  assumes "run_task r e s = Inr (p, s1)" and "dicts_ok s"
  shows "dicts_ok s1 \<and> mset (occupants s1) = mset (occupants s)"
proof (cases "target (heap s r)")
  case IoEpollTask
  with assms show ?thesis
    by (auto simp: run_task_def io_epoll_task_def epoll_poll_def queue_truth_def
        dicts_ok_update occupants_update
        split: sum.splits if_splits dest!: epoll_loop_occupants)
next
  case TimePollTask
  with assms show ?thesis
    by (auto simp: run_task_def time_poll_task_def split: sum.splits
        dest!: time_poll_loop_occupants)
next
  case (WaitForTasks ts ev)
  with assms show ?thesis
    by (auto simp: run_task_def set_target_def dicts_ok_update occupants_update
        split: option.splits)
next
  case (UserGen g)
  with assms show ?thesis
    by (auto simp: run_task_def set_target_def dicts_ok_update occupants_update
        split: outcome.splits)
next
  case Closed
  with assms show ?thesis
    by (auto simp: run_task_def)
qed

lemma handle_frame:
  assumes "handle c r t s = Inr s'"
  shows "next_ref s' = next_ref s \<and> (\<forall>x. tid (heap s' x) = tid (heap s x))
     \<and> running s' = running s"
  using assms
  by (cases c)
    (auto simp: put_def set_sendval_def wait_for_exit_def wait_for_time_def
      wait_for_read_def wait_for_write_def epoll_register_def Let_def close_tids
      close_fields split: option.splits if_splits sum.splits)

lemma wait_for_time_occupants:
  assumes "dicts_ok s"
  shows "dicts_ok (wait_for_time r x s)
     \<and> mset (occupants (wait_for_time r x s)) = mset (occupants s) + {#r#}"
proof (cases "x \<in> fst ` set (time_waiting s)")
  case True
  with assms show ?thesis
    by (simp add: wait_for_time_def dicts_ok_def mset_occupants map_entry_lists
        AList.distinct_map_entry)
next
  case False
  then have "AList.update x [] (time_waiting s) = time_waiting s @ [(x, [])]"
    by (rule update_fresh)
  with False assms show ?thesis
    by (simp add: wait_for_time_def dicts_ok_def mset_occupants map_entry_lists
        AList.distinct_map_entry)
qed

lemma wait_for_io_occupants:
  assumes "epoll_register f m (s\<lparr>io_waiting := AList.update f r (io_waiting s)\<rparr>) = Inr s'"
    and "dicts_ok s"
  shows "dicts_ok s' \<and> mset (occupants s') = mset (occupants s) + {#r#}"
proof -
  from assms(1) have new: "f \<notin> fst ` set (epoll s)"
    and s': "s' = s\<lparr>io_waiting := AList.update f r (io_waiting s), epoll := epoll s @ [(f, m)]\<rparr>"
    by (auto simp: epoll_register_def split: if_splits)
  from new assms(2) have "f \<notin> fst ` set (io_waiting s)"
    by (auto simp: dicts_ok_def)
  then have "AList.update f r (io_waiting s) = io_waiting s @ [(f, r)]"
    by (rule update_fresh)
  with assms(2) s' \<open>f \<notin> fst ` set (io_waiting s)\<close> show ?thesis
    by (auto simp: dicts_ok_def mset_occupants)
qed

lemma wait_for_exit_True:
  assumes "wait_for_exit r t s = Inr (True, s')"
  shows "s' = s\<lparr>taskmap := AList.delete (tid (heap s r)) (taskmap s),
                 exit_waiting :=
                   (if t \<in> fst ` set (exit_waiting s)
                    then AList.map_entry t (\<lambda>l. l @ [r]) (exit_waiting s)
                    else AList.update t [r] (exit_waiting s))\<rparr>"
  using assms by (simp add: wait_for_exit_def Let_def split: if_splits)

lemma wait_for_exit_occupants:
  assumes "wait_for_exit r t s = Inr (True, s')" and "dicts_ok s"
  shows "dicts_ok s' \<and> mset (occupants s') = mset (occupants s) + {#r#}"
proof (cases "t \<in> fst ` set (exit_waiting s)")
  case True
  with assms(2) wait_for_exit_True [OF assms(1)] show ?thesis
    by (simp add: dicts_ok_def mset_occupants map_entry_lists AList.distinct_map_entry)
next
  case False
  then have "AList.update t [r] (exit_waiting s) = exit_waiting s @ [(t, [r])]"
    by (rule update_fresh)
  with False assms(2) wait_for_exit_True [OF assms(1)] show ?thesis
    by (simp add: dicts_ok_def mset_occupants)
qed

lemma wait_for_exit_False:
  "wait_for_exit r t s = Inr (False, s') \<Longrightarrow> s' = s"
  by (auto simp: wait_for_exit_def Let_def split: if_splits)

lemma handle_occupants:
  assumes "handle c r t s = Inr s'" and "dicts_ok s"
  shows "dicts_ok s' \<and>
     mset (occupants s') =
       (if c = SystemCall then mset (occupants s) else mset (occupants s) + {#r#})"
proof (cases c)
  case SystemCall
  with assms show ?thesis by simp
next
  case (KillTask k)
  show ?thesis
  proof (cases "map_of (taskmap s) k")
    case None
    with assms KillTask show ?thesis
      by (auto simp: put_def set_sendval_def dicts_ok_update occupants_update
          mset_occupants)
  next
    case (Some d)
    with assms(1) KillTask obtain s1 where c: "close d s = Inr s1"
      and s': "s' = put r (set_sendval r (PyBool True) s1)"
      by (auto split: sum.splits)
    from close_Inr [OF c] obtain h where "s1 = s\<lparr>heap := h\<rparr>"
      by blast
    with s' assms(2) KillTask show ?thesis
      by (simp add: put_def set_sendval_def dicts_ok_update occupants_update
          mset_occupants)
  qed
next
  case (WaitForTask k)
  with assms(1) obtain b s1 where w: "wait_for_exit r k s = Inr (b, s1)"
    and s': "s' = (if \<not> b then put r (set_sendval r (PyBool b) s1)
                   else set_sendval r (PyBool b) s1)"
    by (auto simp: Let_def split: sum.splits)
  show ?thesis
  proof (cases b)
    case True
    with w assms(2) have "dicts_ok s1 \<and> mset (occupants s1) = mset (occupants s) + {#r#}"
      by (simp add: wait_for_exit_occupants)
    with True s' WaitForTask show ?thesis
      by (simp add: set_sendval_def dicts_ok_update occupants_update)
  next
    case False
    with w have "s1 = s"
      by (simp add: wait_for_exit_False)
    with False s' WaitForTask assms(2) show ?thesis
      by (simp add: set_sendval_def put_def dicts_ok_update mset_occupants)
  qed
next
  case (WaitForTime x)
  with assms show ?thesis
    by (auto simp: wait_for_time_occupants split: option.splits)
next
  case (ReadTask f)
  with assms show ?thesis
    by (simp add: wait_for_read_def wait_for_io_occupants)
next
  case (WriteTask f)
  with assms show ?thesis
    by (simp add: wait_for_write_def wait_for_io_occupants)
qed

lemma task_exit_frame:
  assumes "task_exit r s = Inr s'"
  shows "next_ref s' = next_ref s \<and> heap s' = heap s \<and> running s' = running s"
  using assms
  by (auto simp: task_exit_def Let_def notify_simps split: if_splits option.splits)

lemma task_exit_occupants:
  assumes "task_exit r s = Inr s'" and "dicts_ok s"
  shows "dicts_ok s' \<and> mset (occupants s') = mset (occupants s)"
proof (cases "map_of (exit_waiting s) (tid (heap s r))")
  case None
  with assms show ?thesis
    by (auto simp: task_exit_def Let_def dicts_ok_update occupants_update split: if_splits)
next
  case (Some others)
  with assms(1) have s': "s' = notify others
      (s\<lparr>taskmap := AList.delete (tid (heap s r)) (taskmap s),
         exit_waiting := AList.delete (tid (heap s r)) (exit_waiting s)\<rparr>)"
    by (auto simp: task_exit_def Let_def split: if_splits)
  from assms(2) Some have
    "mset (concat (map snd (exit_waiting s))) =
       mset (concat (map snd (AList.delete (tid (heap s r)) (exit_waiting s)))) + mset others"
    by (simp add: delete_lists dicts_ok_def)
  with assms(2) s' show ?thesis
    by (simp add: dicts_ok_def mset_occupants notify_simps AList.distinct_delete)
qed

lemma dispatch_frame:
  assumes "dispatch e s = Inr s'"
  shows "next_ref s' = next_ref s \<and> (\<forall>x. tid (heap s' x) = tid (heap s x))
     \<and> running s' = running s"
proof (cases "ready s")
  case Nil
  with assms show ?thesis
    by (simp add: dispatch_def)
next
  case (Cons r q)
  with assms obtain p s1 where run: "run_task r e (s\<lparr>ready := q\<rparr>) = Inr (p, s1)"
    by (auto simp: dispatch_def split: sum.splits)
  from run_task_frame [OF run] have 1:
    "next_ref s1 = next_ref s \<and> (\<forall>x. tid (heap s1 x) = tid (heap s x))
       \<and> running s1 = running s"
    by simp
  show ?thesis
  proof (cases p)
    case Value
    with assms Cons run 1 show ?thesis
      by (auto simp: dispatch_def put_def)
  next
    case (Request c)
    with assms Cons run have "handle c r (time_time e) s1 = Inr s'"
      by (simp add: dispatch_def)
    from handle_frame [OF this] 1 show ?thesis
      by simp
  next
    case Stop
    with assms Cons run have "task_exit r s1 = Inr s'"
      by (simp add: dispatch_def)
    from task_exit_frame [OF this] 1 show ?thesis
      by simp
  qed
qed

lemma dispatch_occupants:
  assumes "dispatch e s = Inr s'" and "ready s = r # q"
    and "run_task r e (s\<lparr>ready := q\<rparr>) = Inr (p, s1)" and "dicts_ok s"
  shows "dicts_ok s' \<and>
     mset (occupants s') =
       (if p = Stop \<or> p = Request SystemCall then mset (occupants s) - {#r#}
        else mset (occupants s))"
proof -
  from assms(2) have 0: "mset (occupants s) = mset (occupants (s\<lparr>ready := q\<rparr>)) + {#r#}"
    by (simp add: mset_occupants)
  from assms(4) have "dicts_ok (s\<lparr>ready := q\<rparr>)"
    by (simp add: dicts_ok_update)
  from run_task_occupants [OF assms(3) this] have 1:
    "dicts_ok s1" "mset (occupants s1) = mset (occupants (s\<lparr>ready := q\<rparr>))"
    by simp_all
  show ?thesis
  proof (cases p)
    case Value
    with assms(1-3) 0 1 show ?thesis
      by (auto simp: dispatch_def put_def dicts_ok_update mset_occupants)
  next
    case (Request c)
    with assms(1-3) have "handle c r (time_time e) s1 = Inr s'"
      by (simp add: dispatch_def)
    from handle_occupants [OF this 1(1)] 0 1 Request show ?thesis
      by simp
  next
    case Stop
    with assms(1-3) have "task_exit r s1 = Inr s'"
      by (simp add: dispatch_def)
    from task_exit_occupants [OF this 1(1)] 0 1 Stop show ?thesis
      by simp
  qed
qed

lemma submsets_distinct:
  assumes "mset ys \<subseteq># mset xs" and "distinct xs"
  shows "distinct ys \<and> set ys \<subseteq> set xs"
proof -
  from assms(2) have "\<forall>a. count (mset xs) a \<le> 1"
    by (simp add: distinct_count_atmost_1 count_mset_0_iff)
  with assms(1) have "\<forall>a. count (mset ys) a \<le> 1"
    by (meson mset_subset_eq_count order_trans)
  then have "distinct ys"
    by (metis count_mset_0_iff distinct_count_atmost_1 le_antisym less_one linorder_not_le nle_le not_in_iff set_mset_mset zero_le)
  moreover from assms(1) have "set ys \<subseteq> set xs"
    by (metis set_mset_mono set_mset_mset)
  ultimately show ?thesis by simp
qed

lemma dispatch_placed_once:
  assumes "dispatch e s = Inr s'" and "placed_once s"
  shows "placed_once s'"
proof (cases "ready s")
  case Nil
  with assms show ?thesis
    by (simp add: dispatch_def)
next
  case (Cons r q)
  with assms(1) obtain p s1 where run: "run_task r e (s\<lparr>ready := q\<rparr>) = Inr (p, s1)"
    by (auto simp: dispatch_def split: sum.splits)
  from assms(2) have ok: "dicts_ok s"
    by (simp add: placed_once_def)
  from dispatch_occupants [OF assms(1) Cons run ok]
  have 1: "dicts_ok s'" and "mset (occupants s') \<subseteq># mset (occupants s)"
    by (auto split: if_splits)
  with assms(2) submsets_distinct [of "occupants s'" "occupants s"]
  have "distinct (occupants s')" "set (occupants s') \<subseteq> set (occupants s)"
    by (simp_all add: placed_once_def)
  with 1 assms(2) dispatch_frame [OF assms(1)] show ?thesis
    by (auto simp: placed_once_def)
qed

lemma new_placed_once:
  assumes "placed_once s"
  shows "placed_once (new g h s)"
  using assms
  by (auto simp: placed_once_def new_def Let_def dicts_ok_def occupants_def)

lemma act_placed_once:
  assumes "act a s = Inr s'" and "placed_once s"
  shows "placed_once s'"
proof (cases a)
  case (Submit g h)
  with assms show ?thesis
    by (auto simp: act_def new_placed_once)
next
  case (JoinAll ts ev h)
  with assms show ?thesis
    by (auto simp: act_def joinall_def new_placed_once)
next
  case Shutdown
  with assms show ?thesis
    by (auto simp: act_def placed_once_def dicts_ok_update occupants_update)
next
  case (Tick e)
  with assms show ?thesis
    by (auto simp: act_def dispatch_placed_once split: if_splits)
qed

lemma exec_placed_once:
  "exec acts s = Inr s' \<Longrightarrow> placed_once s \<Longrightarrow> placed_once s'"
proof (induction acts arbitrary: s)
  case Nil
  then show ?case by simp
next
  case (Cons a acts)
  from Cons.prems(1) obtain s1 where 1: "act a s = Inr s1" and 2: "exec acts s1 = Inr s'"
    by (auto split: sum.splits)
  from act_placed_once [OF 1 Cons.prems(2)] Cons.IH [OF 2] show ?case
    by simp
qed

lemma started_placed_once: "placed_once (started h_io h_time)"
  by (simp add: placed_once_def dicts_ok_def occupants_def started_def scheduler_def new_def
      Let_def)

subsection \<open>Placement of tasks\<close>




subsection \<open>The registry\<close>







subsection \<open>Waiting for one's own exit\<close>

lemma handle_exit_waiting:
  assumes "handle c r t s = Inr s'" and "map_of (exit_waiting s) k = Some l"
  shows "\<exists>l'. map_of (exit_waiting s') k = Some l' \<and> set l \<subseteq> set l'"
proof (cases c)
  case (WaitForTask j)
  with assms obtain b s1 where w: "wait_for_exit r j s = Inr (b, s1)"
    and s': "exit_waiting s' = exit_waiting s1"
    by (auto simp: Let_def put_def set_sendval_def split: sum.splits if_splits)
  show ?thesis
  proof (cases b)
    case True
    from assms(2) have "k \<in> fst ` set (exit_waiting s)"
      by (rule dom_Some)
    with True wait_for_exit_True [of r j s s1] w s' assms(2) show ?thesis
      by (cases "j = k") (auto simp: AList.map_of_map_entry AList.update_conv')
  next
    case False
    with w wait_for_exit_False [of r j s s1] s' assms(2) show ?thesis
      by auto
  qed
qed (use assms in \<open>auto simp: put_def set_sendval_def wait_for_time_def
      wait_for_read_def wait_for_write_def epoll_register_def Let_def close_fields
      split: option.splits if_splits sum.splits\<close>)

lemma task_exit_exit_waiting:
  assumes "task_exit r s = Inr s'" and "k \<noteq> tid (heap s r)"
  shows "map_of (exit_waiting s') k = map_of (exit_waiting s) k"
  using assms
  by (auto simp: task_exit_def Let_def notify_simps split: if_splits option.splits)

lemma dispatch_exit_waiting:
  assumes "dispatch e s = Inr s'" and "ready s = r # q" and "k \<noteq> tid (heap s r)"
    and "map_of (exit_waiting s) k = Some l"
  shows "\<exists>l'. map_of (exit_waiting s') k = Some l' \<and> set l \<subseteq> set l'"
proof -
  from assms(1,2) obtain p s1 where run: "run_task r e (s\<lparr>ready := q\<rparr>) = Inr (p, s1)"
    by (auto simp: dispatch_def split: sum.splits)
  from run_task_frame [OF run] have 1:
    "exit_waiting s1 = exit_waiting s" "tid (heap s1 r) = tid (heap s r)"
    by simp_all
  show ?thesis
  proof (cases p)
    case Value
    with assms run 1 show ?thesis
      by (auto simp: dispatch_def put_def)
  next
    case (Request c)
    with assms run have "handle c r (time_time e) s1 = Inr s'"
      by (simp add: dispatch_def)
    from handle_exit_waiting [OF this] 1 assms(4) show ?thesis
      by simp
  next
    case Stop
    with assms run have "task_exit r s1 = Inr s'"
      by (simp add: dispatch_def)
    from task_exit_exit_waiting [OF this, of k] 1 assms(3,4) show ?thesis
      by simp
  qed
qed

lemma exit_list_occupants:
  assumes "map_of (exit_waiting s) k = Some l" and "w \<in> set l"
  shows "w \<in> set (concat (map snd (exit_waiting s)))"
proof -
  from assms(1) have "(k, l) \<in> set (exit_waiting s)"
    by (rule map_of_SomeD)
  with assms(2) show ?thesis
    by force
qed

lemma parked_occupant:
  assumes "parked w s"
  shows "w \<in> set (occupants s) \<and> w \<notin> set (ready s) \<and> w < next_ref s"
proof -
  from assms obtain l where "map_of (exit_waiting s) (tid (heap s w)) = Some l" "w \<in> set l"
    by (auto simp: parked_def)
  then have 1: "w \<in> set (concat (map snd (exit_waiting s)))"
    by (rule exit_list_occupants)
  from assms have "distinct (occupants s)" "set (occupants s) \<subseteq> {..<next_ref s}"
    by (simp_all add: parked_def placed_once_def)
  with 1 show ?thesis
    by (auto simp: occupants_def)
qed

lemma dispatch_parked:
  assumes "dispatch e s = Inr s'" and "parked w s"
  shows "parked w s'"
proof (cases "ready s")
  case Nil
  with assms show ?thesis
    by (simp add: dispatch_def)
next
  case (Cons r q)
  from assms(2) have po: "placed_once s"
    by (simp add: parked_def)
  from parked_occupant [OF assms(2)] Cons have "r \<noteq> w" "r \<in> set (occupants s)"
    by (auto simp: occupants_def)
  with assms(2) have ne: "tid (heap s w) \<noteq> tid (heap s r)"
    by (auto simp: parked_def)
  from assms(2) obtain l where l: "map_of (exit_waiting s) (tid (heap s w)) = Some l" "w \<in> set l"
    by (auto simp: parked_def)
  from dispatch_exit_waiting [OF assms(1) Cons ne l(1)] l(2)
  obtain l' where l': "map_of (exit_waiting s') (tid (heap s w)) = Some l'" "w \<in> set l'"
    by auto
  from dispatch_frame [OF assms(1)] have tids: "\<And>x. tid (heap s' x) = tid (heap s x)"
    by simp
  from assms(1) Cons obtain p s1 where run: "run_task r e (s\<lparr>ready := q\<rparr>) = Inr (p, s1)"
    by (auto simp: dispatch_def split: sum.splits)
  from po have "dicts_ok s"
    by (simp add: placed_once_def)
  from dispatch_occupants [OF assms(1) Cons run this]
  have "mset (occupants s') \<subseteq># mset (occupants s)"
    by (auto split: if_splits)
  then have "set (occupants s') \<subseteq> set (occupants s)"
    by (metis set_mset_mono set_mset_mset)
  with assms(2) tids l' dispatch_placed_once [OF assms(1) po] show ?thesis
    by (auto simp: parked_def)
qed

lemma new_parked:
  assumes "parked w s" and "h \<noteq> tid (heap s w)"
  shows "parked w (new g h s)"
proof -
  from parked_occupant [OF assms(1)] have w: "w \<noteq> next_ref s"
    by simp
  from assms(1) have "placed_once (new g h s)"
    by (simp add: parked_def new_placed_once)
  moreover from assms(1) have "set (occupants s) \<subseteq> {..<next_ref s}"
    by (simp add: parked_def placed_once_def)
  then have "\<forall>x\<in>set (occupants s). x \<noteq> next_ref s"
    by auto
  ultimately show ?thesis
    using assms w
    by (auto simp: parked_def new_def Let_def occupants_def)
qed

lemma act_parked:
  assumes "act a s = Inr s'" and "parked w s" and "new_tid a \<noteq> Some (tid (heap s w))"
  shows "parked w s' \<and> tid (heap s' w) = tid (heap s w)"
proof (cases a)
  case (Submit g h)
  with assms new_parked [of w s h "UserGen (unstarted g)"] parked_occupant [of w s]
  show ?thesis
    by (auto simp: act_def new_def Let_def)
next
  case (JoinAll ts ev h)
  with assms new_parked [of w s h "WaitForTasks ts ev"] parked_occupant [of w s]
  show ?thesis
    by (auto simp: act_def joinall_def new_def Let_def)
next
  case Shutdown
  with assms show ?thesis
    by (auto simp: act_def parked_def placed_once_def dicts_ok_update occupants_update)
next
  case (Tick e)
  with assms dispatch_parked [of e s s' w] dispatch_frame [of e s s'] show ?thesis
    by (auto simp: act_def split: if_splits)
qed

lemma exec_parked:
  "exec acts s = Inr s' \<Longrightarrow> parked w s \<Longrightarrow>
   \<forall>a\<in>set acts. new_tid a \<noteq> Some (tid (heap s w)) \<Longrightarrow>
     parked w s' \<and> tid (heap s' w) = tid (heap s w)"
proof (induction acts arbitrary: s)
  case Nil
  then show ?case by simp
next
  case (Cons a acts)
  from Cons.prems(1) obtain s1 where 1: "act a s = Inr s1" and 2: "exec acts s1 = Inr s'"
    by (auto split: sum.splits)
  from Cons.prems(3) have "new_tid a \<noteq> Some (tid (heap s w))"
    by simp
  from act_parked [OF 1 Cons.prems(2) this]
  have 3: "parked w s1" "tid (heap s1 w) = tid (heap s w)"
    by simp_all
  with Cons.prems(3) have "\<forall>a\<in>set acts. new_tid a \<noteq> Some (tid (heap s1 w))"
    by simp
  from Cons.IH [OF 2 3(1) this] 3(2) show ?case
    by simp
qed

lemma wait_for_task_registered:
  assumes "t \<in> fst ` set (taskmap s)" and "tid (heap s w) \<in> fst ` set (taskmap s)"
  shows "\<exists>s'. handle (WaitForTask t) w time_now s = Inr s'
     \<and> tid (heap s w) \<notin> fst ` set (taskmap s')
     \<and> map_of (exit_waiting s') t =
          Some ((case map_of (exit_waiting s) t of None \<Rightarrow> [] | Some l \<Rightarrow> l) @ [w])"
  using assms
  by (simp add: wait_for_exit_def set_sendval_def Let_def dom_simps exit_waiting_entry
      exit_waiting_fresh)

text \<open>
  C10: when the resumed task \<open>w\<close> yields \<open>WaitForTask\<close> with its own id and that id is in
  \<open>taskmap\<close>, the iteration takes the id out of \<open>taskmap\<close>, appends \<open>w\<close> to the list
  \<open>exit_waiting[w.tid]\<close> and puts \<open>w\<close> on no queue; and whatever is submitted and however
  many iterations follow, \<open>w\<close> stays in that list and never comes back to the ready
  queue, so it is never resumed. The scheduler is one reached from its start; ids are
  the hashes of live objects, so no other task that is held has the id of \<open>w\<close>, and no
  task created while \<open>w\<close> exists gets it.
\<close>

theorem self_join_parks_forever:
  assumes reach: "exec acts0 (started h_io h_time) = Inr s"
    and head: "ready s = w # q"
    and yield: "run_task w e (s\<lparr>ready := q\<rparr>)
                  = Inr (Request (WaitForTask (tid (heap s w))), s1)"
    and reg: "tid (heap s w) \<in> set (map fst (taskmap s))"
    and uniq: "\<forall>x\<in>set (occupants s). x \<noteq> w \<longrightarrow> tid (heap s x) \<noteq> tid (heap s w)"
    and fresh: "\<forall>a\<in>set acts. new_tid a \<noteq> Some (tid (heap s w))"
  shows "\<exists>s2. dispatch e s = Inr s2
      \<and> tid (heap s w) \<notin> set (map fst (taskmap s2))
      \<and> (\<exists>l. map_of (exit_waiting s2) (tid (heap s w)) = Some l \<and> w \<in> set l)
      \<and> w \<notin> set (ready s2)
      \<and> (\<forall>s'. exec acts s2 = Inr s' \<longrightarrow>
            w \<notin> set (ready s')
            \<and> (\<exists>l. map_of (exit_waiting s') (tid (heap s w)) = Some l \<and> w \<in> set l))"
proof -
  let ?t = "tid (heap s w)"
  from exec_placed_once [OF reach started_placed_once] have po: "placed_once s" .
  from run_task_frame [OF yield] have 1:
    "taskmap s1 = taskmap s" "\<And>x. tid (heap s1 x) = tid (heap s x)"
    by simp_all
  with reg have "?t \<in> fst ` set (taskmap s1)" "tid (heap s1 w) \<in> fst ` set (taskmap s1)"
    by simp_all
  from wait_for_task_registered [OF this, of "time_time e"] 1
  obtain s2 where h: "handle (WaitForTask ?t) w (time_time e) s1 = Inr s2"
    and gone: "?t \<notin> fst ` set (taskmap s2)"
    and "map_of (exit_waiting s2) ?t =
          Some ((case map_of (exit_waiting s1) ?t of None \<Rightarrow> [] | Some l \<Rightarrow> l) @ [w])"
    by auto
  then have inlist: "\<exists>l. map_of (exit_waiting s2) ?t = Some l \<and> w \<in> set l"
    by simp
  from head yield h have d: "dispatch e s = Inr s2"
    by (simp add: dispatch_def)
  from dispatch_frame [OF d] have tids: "\<And>x. tid (heap s2 x) = tid (heap s x)"
    by simp
  from po have "dicts_ok s"
    by (simp add: placed_once_def)
  from dispatch_occupants [OF d head yield this]
  have "mset (occupants s2) = mset (occupants s)"
    by simp
  then have "set (occupants s2) = set (occupants s)"
    by (metis set_mset_mset)
  with uniq tids inlist dispatch_placed_once [OF d po] have p: "parked w s2"
    by (simp add: parked_def)
  have "\<forall>s'. exec acts s2 = Inr s' \<longrightarrow>
            w \<notin> set (ready s')
            \<and> (\<exists>l. map_of (exit_waiting s') ?t = Some l \<and> w \<in> set l)"
  proof (intro allI impI)
    fix s'
    assume run: "exec acts s2 = Inr s'"
    from fresh tids have "\<forall>a\<in>set acts. new_tid a \<noteq> Some (tid (heap s2 w))"
      by simp
    from exec_parked [OF run p this] tids
    have "parked w s'" "tid (heap s' w) = ?t"
      by simp_all
    with parked_occupant [of w s']
    show "w \<notin> set (ready s') \<and> (\<exists>l. map_of (exit_waiting s') ?t = Some l \<and> w \<in> set l)"
      by (auto simp: parked_def)
  qed
  with d gone inlist parked_occupant [OF p] show ?thesis
    by auto
qed

theorem self_join_parks_forever_witness:
  "2 \<notin> set (ready (projr (exec self_join_later
                             (projr (dispatch (at_time 1 []) (projr self_join_setup))))))
   \<and> (\<exists>l. map_of (exit_waiting (projr (exec self_join_later
                             (projr (dispatch (at_time 1 []) (projr self_join_setup)))))) 1
            = Some l \<and> 2 \<in> set l)"
proof -
  let ?s = "projr self_join_setup"
  let ?s1 = "set_target 2 (UserGen stopper) (?s\<lparr>ready := [0, 1]\<rparr>)"
  have t: "tid (heap ?s 2) = 1"
    by (simp add: self_join_setup_def run_defs)
  have 0: "exec [Submit (caller (WaitForTask 1)) 1, Tick (at_time 1 []), Tick (at_time 1 [])]
       (started 100 200) = Inr ?s"
    by (simp add: self_join_setup_def run_defs)
  have 1: "ready ?s = 2 # [0, 1]"
    by (simp add: self_join_setup_def run_defs)
  have 2: "run_task 2 (at_time 1 []) (?s\<lparr>ready := [0, 1]\<rparr>)
             = Inr (Request (WaitForTask (tid (heap ?s 2))), ?s1)"
    by (simp add: self_join_setup_def run_defs)
  have 3: "tid (heap ?s 2) \<in> set (map fst (taskmap ?s))"
    by (simp add: self_join_setup_def run_defs)
  have 4: "\<forall>x\<in>set (occupants ?s). x \<noteq> 2 \<longrightarrow> tid (heap ?s x) \<noteq> tid (heap ?s 2)"
    by (simp add: self_join_setup_def run_defs)
  have 5: "\<forall>a\<in>set self_join_later. new_tid a \<noteq> Some (tid (heap ?s 2))"
    by (simp add: t self_join_later_def)
  from self_join_parks_forever [OF 0 1 2 3 4 5]
  obtain s2 where d: "dispatch (at_time 1 []) ?s = Inr s2"
    and later: "\<forall>s'. exec self_join_later s2 = Inr s' \<longrightarrow>
            2 \<notin> set (ready s')
            \<and> (\<exists>l. map_of (exit_waiting s') (tid (heap ?s 2)) = Some l \<and> 2 \<in> set l)"
    by blast
  from d have s2: "s2 = projr (dispatch (at_time 1 []) ?s)"
    by simp
  have "exec self_join_later (projr (dispatch (at_time 1 []) ?s))
          = Inr (projr (exec self_join_later (projr (dispatch (at_time 1 []) ?s))))"
    by (simp add: self_join_later_def self_join_setup_def run_defs)
  with later s2 t show ?thesis
    by simp
qed

end
